theory Spec2Isabelle
  imports Complex_Main
begin

section \<open>The maze engine of \<^verbatim>\<open>src/components/maze-game.tsx\<close>\<close>

text \<open>
  The development embeds the maze generator \<^verbatim>\<open>generateMaze\<close>, the breadth-first
  search \<^verbatim>\<open>findOptimalPath\<close>, the deviation measure \<^verbatim>\<open>calculatePathDeviation\<close>, the
  move handler \<^verbatim>\<open>handleMove\<close> and the metrics record built by the "Next Game" button.
  Coordinates are JavaScript numbers that only ever hold small integers; they are
  modelled by \<^typ>\<open>int\<close>. The constant \<^verbatim>\<open>MAZE_SIZE\<close> of the source is a parameter
  \<open>n\<close> of every function that reads it, and \<open>MAZE_SIZE = 21\<close> is its value in the
  source.
\<close>

subsection \<open>Points and their string keys\<close>

type_synonym Point = "int \<times> int"
  \<comment> \<open>\<^verbatim>\<open>{ x, y }\<close>: the first component is \<open>x\<close>, the second \<open>y\<close>\<close>

definition digit :: "nat \<Rightarrow> char" where
  "digit d = ''0123456789'' ! d"

fun showNat :: "nat \<Rightarrow> string" where
  "showNat n = (if n < 10 then [digit n] else showNat (n div 10) @ [digit (n mod 10)])"

declare showNat.simps [simp del]

definition showInt :: "int \<Rightarrow> string" where
  "showInt i = (if i < 0 then CHR ''-'' # showNat (nat (- i)) else showNat (nat i))"

text \<open>The template string \<^verbatim>\<open>`${x},${y}`\<close> that keys the sets of cells.\<close>

definition posKey :: "Point \<Rightarrow> string" where
  "posKey p = showInt (fst p) @ '','' @ showInt (snd p)"

lemma digit_inj: "a < 10 \<Longrightarrow> b < 10 \<Longrightarrow> digit a = digit b \<Longrightarrow> a = b"
proof -
  assume a: "a < 10" and b: "b < 10" and e: "digit a = digit b"
  have d: "distinct ''0123456789''" by simp
  have "length ''0123456789'' = 10" by simp
  with a b e d show ?thesis
    unfolding digit_def by (metis nth_eq_iff_index_eq)
qed

lemma digit_mem: "d < 10 \<Longrightarrow> digit d \<in> set ''0123456789''"
  unfolding digit_def by (rule nth_mem) simp

lemma showNat_digits: "set (showNat n) \<subseteq> set ''0123456789''"
proof (induction n rule: showNat.induct)
  case (1 n)
  show ?case
  proof (cases "n < 10")
    case True
    then show ?thesis using digit_mem [of n] by (subst showNat.simps) simp
  next
    case False
    have "n mod 10 < 10" by simp
    from digit_mem [OF this] 1 [OF False] False show ?thesis
      by (subst showNat.simps) simp
  qed
qed

lemma showNat_ne: "showNat n \<noteq> []"
  by (subst showNat.simps) simp

lemma showNat_inj: "showNat n = showNat m \<Longrightarrow> n = m"
proof (induction n arbitrary: m rule: showNat.induct)
  case (1 n)
  show ?case
  proof (cases "n < 10")
    case n: True
    show ?thesis
    proof (cases "m < 10")
      case True
      with n 1(2) show ?thesis
        by (metis digit_inj list.inject showNat.simps)
    next
      case False
      then have "showNat m = showNat (m div 10) @ [digit (m mod 10)]"
        by (subst showNat.simps) simp
      moreover have "showNat n = [digit n]" using n by (subst showNat.simps) simp
      ultimately show ?thesis using 1(2) showNat_ne [of "m div 10"] by simp
    qed
  next
    case n: False
    then have en: "showNat n = showNat (n div 10) @ [digit (n mod 10)]"
      by (subst showNat.simps) simp
    show ?thesis
    proof (cases "m < 10")
      case True
      then have "showNat m = [digit m]" by (subst showNat.simps) simp
      with en 1(2) showNat_ne [of "n div 10"] show ?thesis by simp
    next
      case False
      then have "showNat m = showNat (m div 10) @ [digit (m mod 10)]"
        by (subst showNat.simps) simp
      with en 1(2) have a: "showNat (n div 10) = showNat (m div 10)"
        and b: "digit (n mod 10) = digit (m mod 10)" by simp_all
      from 1(1) [OF n a] have "n div 10 = m div 10" .
      moreover from b have "n mod 10 = m mod 10" by (intro digit_inj) simp_all
      ultimately show ?thesis by (metis div_mult_mod_eq)
    qed
  qed
qed

lemma showInt_chars: "CHR '','' \<notin> set (showInt i)"
  using showNat_digits [of "nat i"] showNat_digits [of "nat (- i)"]
  by (auto simp: showInt_def)

lemma showNat_no_minus: "showNat n \<noteq> CHR ''-'' # s"
proof
  assume "showNat n = CHR ''-'' # s"
  then have "CHR ''-'' \<in> set (showNat n)" by simp
  with showNat_digits [of n] show False by auto
qed

lemma showInt_inj: "showInt i = showInt j \<Longrightarrow> i = j"
  unfolding showInt_def
  by (auto split: if_splits dest: showNat_inj simp: showNat_no_minus showNat_no_minus [symmetric])

lemma split_at_sep:
  "c \<notin> set a \<Longrightarrow> c \<notin> set a' \<Longrightarrow> a @ c # b = a' @ c # b' \<Longrightarrow> a = a' \<and> b = b'"
proof (induction a arbitrary: a')
  case Nil
  then show ?case by (cases a') auto
next
  case (Cons h t)
  then show ?case by (cases a') auto
qed

text \<open>Distinct cells have distinct keys: a set of keys is a set of cells.\<close>

lemma posKey_inj [simp]: "posKey p = posKey q \<longleftrightarrow> p = q"
proof
  assume "posKey p = posKey q"
  then have "showInt (fst p) @ CHR '','' # showInt (snd p)
      = showInt (fst q) @ CHR '','' # showInt (snd q)"
    by (simp add: posKey_def)
  from split_at_sep [OF showInt_chars showInt_chars this]
  show "p = q" by (auto dest: showInt_inj intro: prod_eqI)
qed simp

lemma inj_posKey: "inj posKey"
  by (rule injI) simp

subsection \<open>Path deviation\<close>

text \<open>
  A JavaScript \<^verbatim>\<open>Set\<close> built from an array keeps the first occurrence of every
  element, in insertion order; \<^verbatim>\<open>[...s]\<close> lists it in that order.
\<close>

definition setAdd :: "'a list \<Rightarrow> 'a \<Rightarrow> 'a list" where
  "setAdd s k = (if k \<in> set s then s else s @ [k])"

definition newSet :: "'a list \<Rightarrow> 'a list" where
  "newSet xs = foldl setAdd [] xs"

definition calculatePathDeviation :: "Point list \<Rightarrow> Point list \<Rightarrow> nat" where
  "calculatePathDeviation optimalPath actualPath =
     (let optimalSet = newSet (map posKey optimalPath);
          actualSet = newSet (map posKey actualPath);
          extraMoves = length (filter (\<lambda>pos. pos \<notin> set optimalSet) actualSet);
          missedMoves = length (filter (\<lambda>pos. pos \<notin> set actualSet) optimalSet)
      in extraMoves + missedMoves)"

lemma foldl_setAdd: "set (foldl setAdd s xs) = set s \<union> set xs
    \<and> (distinct s \<longrightarrow> distinct (foldl setAdd s xs))"
  by (induction xs arbitrary: s) (auto simp: setAdd_def)

lemma set_newSet [simp]: "set (newSet xs) = set xs"
  using foldl_setAdd [of "[]" xs] by (simp add: newSet_def)

lemma distinct_newSet [simp]: "distinct (newSet xs)"
  using foldl_setAdd [of "[]" xs] by (simp add: newSet_def)

lemma length_filter_newSet:
  "length (filter (\<lambda>k. k \<notin> S) (newSet xs)) = card (set xs - S)"
proof -
  have "distinct (filter (\<lambda>k. k \<notin> S) (newSet xs))" by simp
  from distinct_card [OF this]
  have "length (filter (\<lambda>k. k \<notin> S) (newSet xs)) = card (set (filter (\<lambda>k. k \<notin> S) (newSet xs)))"
    by (rule sym)
  also have "set (filter (\<lambda>k. k \<notin> S) (newSet xs)) = set xs - S" by auto
  finally show ?thesis .
qed

lemma card_key_diff: "card (posKey ` A - posKey ` B) = card (A - B)"
proof -
  have "posKey ` A - posKey ` B = posKey ` (A - B)"
    by (simp add: image_set_diff [OF inj_posKey])
  then show ?thesis by (simp add: card_image inj_on_def)
qed

lemma deviation_cards:
  "calculatePathDeviation A B = card (set B - set A) + card (set A - set B)"
  by (simp add: calculatePathDeviation_def Let_def length_filter_newSet card_key_diff
      flip: image_set)

text \<open>
  C9. The deviation of two paths is the number of cells in the symmetric difference of
  their sets of cells. Hence it is symmetric, it is zero on equal arguments, and it
  depends on each path only through its set of cells: neither the order of the cells
  nor their repetitions matter.
\<close>

theorem calculatePathDeviation_symmetric_difference:
  "calculatePathDeviation A B = card ((set A - set B) \<union> (set B - set A))
   \<and> calculatePathDeviation A B = calculatePathDeviation B A
   \<and> calculatePathDeviation A A = 0
   \<and> (set A' = set A \<and> set B' = set B
        \<longrightarrow> calculatePathDeviation A' B' = calculatePathDeviation A B)"
proof -
  have "card ((set A - set B) \<union> (set B - set A)) = card (set A - set B) + card (set B - set A)"
    by (rule card_Un_disjoint) auto
  then show ?thesis by (simp add: deviation_cards)
qed

theorem calculatePathDeviation_witness:
  "calculatePathDeviation [(1,1), (1,2), (1,3)] [(1,1), (2,1)] = 3
   \<and> calculatePathDeviation [(1,3), (1,1), (1,2), (1,1)] [(2,1), (1,1), (2,1)]
      = calculatePathDeviation [(1,1), (1,2), (1,3)] [(1,1), (2,1)]"
proof -
  have s: "set [(1,3), (1,1), (1,2), (1,1)] = set [(1,1), (1,2), (1,3 :: int)]
      \<and> set [(2,1), (1,1), (2,1)] = set [(1,1), (2 :: int, 1 :: int)]"
    by auto
  have "calculatePathDeviation [(1,1), (1,2), (1,3)] [(1,1), (2,1)]
      = card ((set [(1,1), (1,2), (1,3)] - set [(1,1), (2,1)])
          \<union> (set [(1,1), (2,1)] - set [(1 :: int,1 :: int), (1,2), (1,3)]))"
    using calculatePathDeviation_symmetric_difference [of "[(1,1), (1,2), (1,3)]" "[(1,1), (2,1)]"]
    by blast
  also have "\<dots> = 3" by simp
  finally have a: "calculatePathDeviation [(1,1), (1,2), (1,3)] [(1,1), (2,1)] = 3" .
  from calculatePathDeviation_symmetric_difference
    [of "[(1,1), (1,2), (1,3)]" "[(1,1), (2,1)]" "[(1,3), (1,1), (1,2), (1,1)]" "[(2,1), (1,1), (2,1)]"] s
  have "calculatePathDeviation [(1,3), (1,1), (1,2), (1,1)] [(2,1), (1,1), (2,1)]
      = calculatePathDeviation [(1,1), (1,2), (1,3)] [(1,1), (2,1)]"
    by blast
  with a show ?thesis by simp
qed

subsection \<open>The grid\<close>

text \<open>
  A grid is the array of rows \<^verbatim>\<open>maze[y][x]\<close>; a cell is one of the strings below.
  JavaScript reads \<^verbatim>\<open>undefined\<close> outside an array, and indexing \<^verbatim>\<open>undefined\<close>
  throws a \<^verbatim>\<open>TypeError\<close>: \<open>jsGet\<close> returns \<open>None\<close> for \<^verbatim>\<open>undefined\<close>, and a
  read of \<^verbatim>\<open>maze[y][x]\<close> is an error when the row \<open>y\<close> does not exist. A write to a
  missing row throws as well. A write to a column outside an existing row does not
  throw in the source (the row grows); the model stops there with \<open>OffGrid\<close>, so
  that a result \<open>Inr\<close> of the model is a run all of whose writes stayed on the grid.
\<close>

type_synonym Grid = "string list list"

datatype error = TypeError | OffGrid

definition MAZE_SIZE :: nat where "MAZE_SIZE = 21"
definition PLAYER :: string where "PLAYER = ''P''"
definition WALL :: string where "WALL = ''#''"
definition EXIT :: string where "EXIT = ''E''"
definition PATH :: string where "PATH = '' ''"

definition jsGet :: "'a list \<Rightarrow> int \<Rightarrow> 'a option" where
  "jsGet xs i = (if 0 \<le> i \<and> i < int (length xs) then Some (xs ! nat i) else None)"

definition cellAt :: "'a list list \<Rightarrow> int \<Rightarrow> int \<Rightarrow> error + 'a option" where
  "cellAt maze x y =
     (case jsGet maze y of None \<Rightarrow> Inl TypeError | Some row \<Rightarrow> Inr (jsGet row x))"

definition setCell :: "'a list list \<Rightarrow> int \<Rightarrow> int \<Rightarrow> 'a \<Rightarrow> error + 'a list list" where
  "setCell maze x y v =
     (case jsGet maze y of
        None \<Rightarrow> Inl TypeError
      | Some row \<Rightarrow>
          if 0 \<le> x \<and> x < int (length row) then Inr (maze[nat y := row[nat x := v]])
          else Inl OffGrid)"

subsection \<open>The maze generator\<close>

text \<open>
  \<^verbatim>\<open>carvePath\<close> is a closure over the array \<^verbatim>\<open>maze\<close>; the model passes the grid
  through. Each call shuffles the four two-step directions with
  \<^verbatim>\<open>.sort(() => Math.random() - 0.5)\<close>. The outcome of the \<open>k\<close>-th shuffle of a run is
  \<open>rnd k\<close>, and the state carries the number \<open>k\<close> of shuffles made so far. The source
  only ever permutes \<open>carveDirections\<close>, which \<open>shuffles\<close> states; \<^verbatim>\<open>dx / 2\<close> is then
  an integer and is written \<open>dx div 2\<close>. \<open>carveLoop\<close> is the \<^verbatim>\<open>for\<close> loop of
  \<^verbatim>\<open>carvePath\<close> over the directions that remain.
\<close>

definition carveDirections :: "Point list" where
  "carveDirections = [(0, -2), (0, 2), (-2, 0), (2, 0)]"

definition shuffles :: "(nat \<Rightarrow> Point list) \<Rightarrow> bool" where
  "shuffles rnd = (\<forall>k. distinct (rnd k) \<and> set (rnd k) = set carveDirections)"

function carvePath :: "nat \<Rightarrow> (nat \<Rightarrow> Point list) \<Rightarrow> Grid \<times> nat \<Rightarrow> int \<Rightarrow> int \<Rightarrow> error + Grid \<times> nat"
  and carveLoop :: "nat \<Rightarrow> (nat \<Rightarrow> Point list) \<Rightarrow> Grid \<times> nat \<Rightarrow> int \<Rightarrow> int \<Rightarrow> Point list
      \<Rightarrow> error + Grid \<times> nat"
where
  "carvePath n rnd (maze, k) x y =
     (case setCell maze x y PATH of
        Inl e \<Rightarrow> Inl e
      | Inr maze1 \<Rightarrow> carveLoop n rnd (maze1, Suc k) x y (rnd k))"
| "carveLoop n rnd (maze, k) x y [] = Inr (maze, k)"
| "carveLoop n rnd (maze, k) x y ((dx, dy) # dirs) =
     (let newX = x + dx; newY = y + dy in
      if newX > 0 \<and> newX < int n - 1 \<and> newY > 0 \<and> newY < int n - 1 then
        (case cellAt maze newX newY of
           Inl e \<Rightarrow> Inl e
         | Inr c \<Rightarrow>
             if c = Some WALL then
               (case setCell maze newX newY PATH of
                  Inl e \<Rightarrow> Inl e
                | Inr maze1 \<Rightarrow>
                   (case setCell maze1 (x + dx div 2) (y + dy div 2) PATH of
                      Inl e \<Rightarrow> Inl e
                    | Inr maze2 \<Rightarrow>
                       (case carvePath n rnd (maze2, k) newX newY of
                          Inl e \<Rightarrow> Inl e
                        | Inr st \<Rightarrow> carveLoop n rnd st x y dirs)))
             else carveLoop n rnd (maze, k) x y dirs)
      else carveLoop n rnd (maze, k) x y dirs)"
  by pat_completeness auto

text \<open>
  The recursion ends because every recursive call of \<open>carvePath\<close> comes after a wall
  cell has been opened, and no write of the generator makes a wall.
\<close>

definition wallsIn :: "string list \<Rightarrow> nat" where
  "wallsIn row = length (filter (\<lambda>c. c = WALL) row)"

definition walls :: "Grid \<Rightarrow> nat" where
  "walls maze = sum_list (map wallsIn maze)"

lemma filter_update_le:
  "length (filter P (xs[i := v])) \<le> length (filter P xs) + (if P v then 1 else 0)"
proof (induction xs arbitrary: i)
  case Nil
  then show ?case by simp
next
  case (Cons a xs)
  then show ?case by (cases i) (auto simp: le_SucI)
qed

lemma filter_update_less:
  "i < length xs \<Longrightarrow> P (xs ! i) \<Longrightarrow> \<not> P v
    \<Longrightarrow> length (filter P (xs[i := v])) < length (filter P xs)"
proof (induction xs arbitrary: i)
  case Nil
  then show ?case by simp
next
  case (Cons a xs)
  then show ?case by (cases i) auto
qed

lemma sum_list_update_le:
  "i < length xs \<Longrightarrow> f v \<le> (f (xs ! i) :: nat)
    \<Longrightarrow> sum_list (map f (xs[i := v])) \<le> sum_list (map f xs)"
proof (induction xs arbitrary: i)
  case Nil
  then show ?case by simp
next
  case (Cons a xs)
  then show ?case by (cases i) (auto simp: add_le_mono)
qed

lemma sum_list_update_less:
  "i < length xs \<Longrightarrow> f v < (f (xs ! i) :: nat)
    \<Longrightarrow> sum_list (map f (xs[i := v])) < sum_list (map f xs)"
proof (induction xs arbitrary: i)
  case Nil
  then show ?case by simp
next
  case (Cons a xs)
  then show ?case by (cases i) auto
qed

lemma PATH_not_WALL [simp]: "PATH \<noteq> WALL" "WALL \<noteq> PATH"
  by (simp_all add: PATH_def WALL_def)

lemma setCell_InrD:
  assumes "setCell maze x y v = Inr maze'"
  shows "0 \<le> y" and "nat y < length maze" and "0 \<le> x" and "nat x < length (maze ! nat y)"
    and "maze' = maze[nat y := (maze ! nat y)[nat x := v]]"
  using assms by (auto simp: setCell_def jsGet_def split: if_splits option.splits)

lemma walls_setCell_le: "setCell maze x y PATH = Inr maze' \<Longrightarrow> walls maze' \<le> walls maze"
proof -
  assume a: "setCell maze x y PATH = Inr maze'"
  note d = setCell_InrD [OF a]
  have "wallsIn ((maze ! nat y)[nat x := PATH]) \<le> wallsIn (maze ! nat y)"
    using filter_update_le [of "\<lambda>c. c = WALL" "maze ! nat y" "nat x" PATH]
    by (simp add: wallsIn_def)
  from sum_list_update_le [of "nat y" maze wallsIn, OF d(2) this] d(5) show ?thesis
    by (simp add: walls_def)
qed

lemma walls_setCell_less:
  assumes "cellAt maze x y = Inr (Some WALL)" and "setCell maze x y PATH = Inr maze'"
  shows "walls maze' < walls maze"
proof -
  note d = setCell_InrD [OF assms(2)]
  from assms(1) d have w: "maze ! nat y ! nat x = WALL"
    by (auto simp: cellAt_def jsGet_def split: if_splits option.splits)
  have "wallsIn ((maze ! nat y)[nat x := PATH]) < wallsIn (maze ! nat y)"
    using filter_update_less [of "nat x" "maze ! nat y" "\<lambda>c. c = WALL" PATH] d(4) w
    by (simp add: wallsIn_def)
  from sum_list_update_less [of "nat y" maze wallsIn, OF d(2) this] d(5) show ?thesis
    by (simp add: walls_def)
qed

lemma carve_walls_dom:
  "carvePath_carveLoop_dom (Inl (n, rnd, st, x, y)) \<Longrightarrow>
     carvePath n rnd st x y = Inr st' \<Longrightarrow> walls (fst st') \<le> walls (fst st)"
  "carvePath_carveLoop_dom (Inr (n, rnd, st, x, y, ds)) \<Longrightarrow>
     carveLoop n rnd st x y ds = Inr st' \<Longrightarrow> walls (fst st') \<le> walls (fst st)"
proof (induction n rnd st x y and n rnd st x y ds arbitrary: st' and st'
    rule: carvePath_carveLoop.pinduct)
  case (1 n rnd maze k x y)
  from 1(3) 1(1) obtain maze1 where s: "setCell maze x y PATH = Inr maze1"
    and r: "carveLoop n rnd (maze1, Suc k) x y (rnd k) = Inr st'"
    by (auto simp: carvePath.psimps split: sum.splits)
  from 1(2) [OF s r] walls_setCell_le [OF s] show ?case by simp
next
  case (2 n rnd maze k x y)
  then show ?case by (simp add: carveLoop.psimps)
next
  case (3 n rnd maze k x y dx dy dirs)
  let ?nx = "x + dx" and ?ny = "y + dy"
  show ?case
  proof (cases "0 < ?nx \<and> ?nx < int n - 1 \<and> 0 < ?ny \<and> ?ny < int n - 1")
    case False
    with 3(6) 3(1) have "carveLoop n rnd (maze, k) x y dirs = Inr st'"
      by (simp add: carveLoop.psimps Let_def)
    from 3(5) [OF refl refl False this] show ?thesis .
  next
    case g: True
    with 3(6) 3(1) obtain c where c: "cellAt maze ?nx ?ny = Inr c"
      by (auto simp: carveLoop.psimps Let_def split: sum.splits)
    show ?thesis
    proof (cases "c = Some WALL")
      case False
      with g c 3(6) 3(1) have "carveLoop n rnd (maze, k) x y dirs = Inr st'"
        by (simp add: carveLoop.psimps Let_def)
      from 3(4) [OF refl refl g c False this] show ?thesis .
    next
      case w: True
      with g c 3(6) 3(1) obtain maze1 maze2 st1 where
        s1: "setCell maze ?nx ?ny PATH = Inr maze1" and
        s2: "setCell maze1 (x + dx div 2) (y + dy div 2) PATH = Inr maze2" and
        r1: "carvePath n rnd (maze2, k) ?nx ?ny = Inr st1" and
        r2: "carveLoop n rnd st1 x y dirs = Inr st'"
        by (auto simp: carveLoop.psimps Let_def split: sum.splits)
      from 3(2) [OF refl refl g c w s1 s2 r1] have "walls (fst st1) \<le> walls maze2" by simp
      moreover from 3(3) [OF refl refl g c w s1 s2 r1 r2]
      have "walls (fst st') \<le> walls (fst st1)" .
      moreover note walls_setCell_le [OF s1] walls_setCell_le [OF s2]
      ultimately show ?thesis by simp
    qed
  qed
qed

termination carvePath
proof (relation "inv_image (less_than <*lex*> less_than <*lex*> less_than)
    (\<lambda>a. case a of
        Inl (n, rnd, st, x, y) \<Rightarrow> (walls (fst st), 1 :: nat, 0 :: nat)
      | Inr (n, rnd, st, x, y, ds) \<Rightarrow> (walls (fst st), 0, length ds))", goal_cases)
  case 1
  show ?case by (intro wf_inv_image wf_lex_prod wf_less_than)
next
  case (2 n rnd maze k x y maze1)
  then show ?case using walls_setCell_le [of maze x y maze1] by auto
next
  case (3 n rnd maze k x y dx dy dirs newX newY c maze1 maze2)
  then show ?case
    using walls_setCell_less [of maze newX newY maze1]
      walls_setCell_le [of maze1 "x + dx div 2" "y + dy div 2" maze2]
    by auto
next
  case (4 n rnd maze k x y dx dy dirs newX newY c maze1 maze2 st)
  then show ?case
    using walls_setCell_le [of maze newX newY maze1]
      walls_setCell_le [of maze1 "x + dx div 2" "y + dy div 2" maze2]
      carve_walls_dom(1) [of n rnd "(maze2, k)" newX newY st]
    by auto
next
  case 5
  then show ?case by simp
next
  case 6
  then show ?case by simp
qed

definition generateMaze :: "nat \<Rightarrow> (nat \<Rightarrow> Point list) \<Rightarrow> error + Grid" where
  "generateMaze n rnd =
     (let maze = replicate n (replicate n WALL) in
      case carvePath n rnd (maze, 0) 1 1 of
        Inl e \<Rightarrow> Inl e
      | Inr (maze1, k) \<Rightarrow>
          (case setCell maze1 1 1 PLAYER of
             Inl e \<Rightarrow> Inl e
           | Inr maze2 \<Rightarrow> setCell maze2 (int n - 2) (int n - 2) EXIT))"

subsection \<open>The shortest-path finder\<close>

text \<open>
  \<open>expand\<close> is the \<^verbatim>\<open>for\<close> loop over the four directions inside the \<^verbatim>\<open>while\<close> loop
  of \<^verbatim>\<open>findOptimalPath\<close>, and \<open>bfsLoop\<close> is the \<^verbatim>\<open>while\<close> loop: the queue is a list
  of \<^verbatim>\<open>{ point, path }\<close> items, \<^verbatim>\<open>shift\<close> takes its head and \<^verbatim>\<open>push\<close> appends. The
  set \<^verbatim>\<open>visited\<close> holds string keys and is only ever added to and tested.
\<close>

type_synonym QueueItem = "Point \<times> Point list"

definition directions :: "Point list" where
  "directions = [(0, -1), (0, 1), (-1, 0), (1, 0)]"

fun expand :: "nat \<Rightarrow> Grid \<Rightarrow> Point \<Rightarrow> Point list \<Rightarrow> Point list
    \<Rightarrow> QueueItem list \<times> string set \<Rightarrow> error + QueueItem list \<times> string set" where
  "expand n maze point path [] (queue, visited) = Inr (queue, visited)"
| "expand n maze point path (dir # dirs) (queue, visited) =
     (let newX = fst point + fst dir;
          newY = snd point + snd dir;
          newPoint = (newX, newY);
          key = posKey (newX, newY)
      in if newX \<ge> 0 \<and> newX < int n \<and> newY \<ge> 0 \<and> newY < int n then
           (case cellAt maze newX newY of
              Inl e \<Rightarrow> Inl e
            | Inr c \<Rightarrow>
                if c \<noteq> Some WALL \<and> key \<notin> visited then
                  expand n maze point path dirs
                    (queue @ [(newPoint, path @ [newPoint])], insert key visited)
                else expand n maze point path dirs (queue, visited))
         else expand n maze point path dirs (queue, visited))"

definition unvisited :: "nat \<Rightarrow> string set \<Rightarrow> Point set" where
  "unvisited n visited = {p \<in> {0..<int n} \<times> {0..<int n}. posKey p \<notin> visited}"

lemma finite_unvisited [simp]: "finite (unvisited n visited)"
  by (simp add: unvisited_def)

lemma unvisited_insert:
  assumes "0 \<le> fst p" "fst p < int n" "0 \<le> snd p" "snd p < int n" "posKey p \<notin> visited"
  shows "card (unvisited n (insert (posKey p) visited)) < card (unvisited n visited)"
proof (rule psubset_card_mono)
  have "p \<in> unvisited n visited" using assms by (cases p) (simp add: unvisited_def)
  moreover have "p \<notin> unvisited n (insert (posKey p) visited)" by (simp add: unvisited_def)
  moreover have "unvisited n (insert (posKey p) visited) \<subseteq> unvisited n visited"
    by (auto simp: unvisited_def)
  ultimately show "unvisited n (insert (posKey p) visited) \<subset> unvisited n visited" by blast
qed simp

lemma expand_measure:
  "expand n maze point path dirs (queue, visited) = Inr (queue', visited')
    \<Longrightarrow> 2 * card (unvisited n visited') + length queue'
        \<le> 2 * card (unvisited n visited) + length queue"
proof (induction dirs arbitrary: queue visited)
  case Nil
  then show ?case by simp
next
  case (Cons dir dirs)
  let ?p = "(fst point + fst dir, snd point + snd dir)"
  show ?case
  proof (cases "fst ?p \<ge> 0 \<and> fst ?p < int n \<and> snd ?p \<ge> 0 \<and> snd ?p < int n
      \<and> cellAt maze (fst ?p) (snd ?p) \<noteq> Inr (Some WALL) \<and> posKey ?p \<notin> visited")
    case True
    with Cons.prems have "expand n maze point path dirs
        (queue @ [(?p, path @ [?p])], insert (posKey ?p) visited) = Inr (queue', visited')"
      by (auto simp: Let_def split: sum.splits if_splits)
    from Cons.IH [OF this] unvisited_insert [of ?p n visited] True show ?thesis by simp
  next
    case False
    with Cons.prems have "expand n maze point path dirs (queue, visited) = Inr (queue', visited')"
      by (auto simp: Let_def split: sum.splits if_splits)
    from Cons.IH [OF this] show ?thesis .
  qed
qed

function bfsLoop :: "nat \<Rightarrow> Grid \<Rightarrow> Point \<Rightarrow> QueueItem list \<Rightarrow> string set \<Rightarrow> error + Point list" where
  "bfsLoop n maze endP [] visited = Inr []"
| "bfsLoop n maze endP ((point, path) # queue) visited =
     (if fst point = fst endP \<and> snd point = snd endP then Inr path
      else case expand n maze point path directions (queue, visited) of
             Inl e \<Rightarrow> Inl e
           | Inr (queue', visited') \<Rightarrow> bfsLoop n maze endP queue' visited')"
  by pat_completeness auto
termination
proof (relation "measure (\<lambda>(n, maze, endP, queue, visited).
    2 * card (unvisited n visited) + length queue)", goal_cases)
  case 1
  show ?case by simp
next
  case (2 n maze endP point path queue visited x2 queue' visited')
  from 2 have "expand n maze point path directions (queue, visited) = Inr (queue', visited')"
    by simp
  from expand_measure [OF this] 2(3) show ?case by auto
qed

definition findOptimalPath :: "nat \<Rightarrow> Grid \<Rightarrow> Point \<Rightarrow> Point \<Rightarrow> error + Point list" where
  "findOptimalPath n maze start endP =
     bfsLoop n maze endP [(start, [start])] {posKey start}"

subsection \<open>Grids of side \<open>n\<close> and their open cells\<close>

text \<open>
  The generator builds a grid of \<open>n\<close> rows of \<open>n\<close> cells; on such a grid every read and
  write inside the bounds finds its cell. A cell is open when it is no wall.
\<close>

definition wf_grid :: "nat \<Rightarrow> 'a list list \<Rightarrow> bool" where
  "wf_grid n maze = (length maze = n \<and> list_all (\<lambda>row. length row = n) maze)"

definition inGrid :: "nat \<Rightarrow> Point \<Rightarrow> bool" where
  "inGrid n p = (0 \<le> fst p \<and> fst p < int n \<and> 0 \<le> snd p \<and> snd p < int n)"

definition interior :: "nat \<Rightarrow> Point \<Rightarrow> bool" where
  "interior n p = (0 < fst p \<and> fst p < int n - 1 \<and> 0 < snd p \<and> snd p < int n - 1)"

definition isOpen :: "Grid \<Rightarrow> Point \<Rightarrow> bool" where
  "isOpen maze p = (case cellAt maze (fst p) (snd p) of Inr (Some c) \<Rightarrow> c \<noteq> WALL | _ \<Rightarrow> False)"

definition opened :: "Grid \<Rightarrow> Point set" where
  "opened maze = {p. isOpen maze p}"

lemma interior_inGrid: "interior n p \<Longrightarrow> inGrid n p"
  by (auto simp: interior_def inGrid_def)

lemma wf_grid_row: "wf_grid n maze \<Longrightarrow> i < n \<Longrightarrow> length (maze ! i) = n"
  by (auto simp: wf_grid_def list_all_length)

lemma cellAt_wf:
  "wf_grid n maze \<Longrightarrow> inGrid n p
    \<Longrightarrow> cellAt maze (fst p) (snd p) = Inr (Some (maze ! nat (snd p) ! nat (fst p)))"
  using wf_grid_row [of n maze "nat (snd p)"]
  by (auto simp: cellAt_def jsGet_def inGrid_def wf_grid_def)

lemma cellAt_wf_out:
  assumes "wf_grid n maze" and "\<not> inGrid n p"
  shows "cellAt maze (fst p) (snd p) = Inl TypeError \<or> cellAt maze (fst p) (snd p) = Inr None"
proof (cases "0 \<le> snd p \<and> snd p < int n")
  case True
  then have "nat (snd p) < n" by linarith
  from wf_grid_row [OF assms(1) this] True assms show ?thesis
    by (auto simp: cellAt_def jsGet_def inGrid_def wf_grid_def)
next
  case False
  with assms(1) show ?thesis by (auto simp: cellAt_def jsGet_def wf_grid_def)
qed

lemma isOpen_inGrid: "wf_grid n maze \<Longrightarrow> isOpen maze p \<Longrightarrow> inGrid n p"
  using cellAt_wf_out [of n maze p] by (auto simp: isOpen_def split: sum.splits option.splits)

lemma isOpen_wf: "wf_grid n maze \<Longrightarrow> inGrid n p
    \<Longrightarrow> isOpen maze p \<longleftrightarrow> maze ! nat (snd p) ! nat (fst p) \<noteq> WALL"
  by (simp add: isOpen_def cellAt_wf)

lemma setCell_wf:
  assumes "wf_grid n maze" and "inGrid n (x, y)"
  shows "\<exists>maze'. setCell maze x y v = Inr maze' \<and> wf_grid n maze'
    \<and> (\<forall>p. inGrid n p \<longrightarrow> maze' ! nat (snd p) ! nat (fst p)
          = (if p = (x, y) then v else maze ! nat (snd p) ! nat (fst p)))"
proof -
  from assms have y: "0 \<le> y" "nat y < n" and x: "0 \<le> x" "nat x < n" and l: "length maze = n"
    by (auto simp: inGrid_def wf_grid_def)
  have r: "length (maze ! nat y) = n" using wf_grid_row [OF assms(1) y(2)] .
  let ?m = "maze[nat y := (maze ! nat y)[nat x := v]]"
  have s: "setCell maze x y v = Inr ?m" using x y l r by (auto simp: setCell_def jsGet_def)
  have w: "wf_grid n ?m" using assms(1) r y(2)
    by (auto simp: wf_grid_def list_all_length nth_list_update)
  have "?m ! nat (snd p) ! nat (fst p)
      = (if p = (x, y) then v else maze ! nat (snd p) ! nat (fst p))" if "inGrid n p" for p
  proof -
    from that have "nat (snd p) < n" "nat (fst p) < n" "0 \<le> fst p" "0 \<le> snd p"
      by (auto simp: inGrid_def)
    then show ?thesis using l r x y by (cases p) (auto simp: nth_list_update)
  qed
  with s w show ?thesis by blast
qed

lemma setCell_opened:
  assumes "wf_grid n maze" and "inGrid n (x, y)" and "v \<noteq> WALL"
  obtains maze' where "setCell maze x y v = Inr maze'" and "wf_grid n maze'"
    and "opened maze' = insert (x, y) (opened maze)"
proof -
  from setCell_wf [OF assms(1,2), of v] obtain maze' where s: "setCell maze x y v = Inr maze'"
    and w: "wf_grid n maze'"
    and c: "\<And>p. inGrid n p \<Longrightarrow> maze' ! nat (snd p) ! nat (fst p)
          = (if p = (x, y) then v else maze ! nat (snd p) ! nat (fst p))"
    by blast
  have "isOpen maze' p \<longleftrightarrow> p = (x, y) \<or> isOpen maze p" for p
  proof (cases "inGrid n p")
    case True
    then show ?thesis using c [OF True] assms(3) by (simp add: isOpen_wf [OF w] isOpen_wf [OF assms(1)])
  next
    case False
    with isOpen_inGrid [OF w, of p] isOpen_inGrid [OF assms(1), of p] assms(2) show ?thesis
      by auto
  qed
  then have "opened maze' = insert (x, y) (opened maze)" by (auto simp: opened_def)
  with s w that show ?thesis by blast
qed

subsection \<open>Simple paths and trees of cells\<close>

text \<open>
  Two cells are adjacent when they are one step apart. A set of cells is a tree when any
  two of its cells are joined by exactly one simple path inside the set; attaching a new
  cell to exactly one cell of a tree gives a tree.
\<close>

definition adjacent :: "Point \<Rightarrow> Point \<Rightarrow> bool" where
  "adjacent p q = (\<bar>fst p - fst q\<bar> + \<bar>snd p - snd q\<bar> = 1)"

definition simplePath :: "Point set \<Rightarrow> Point \<Rightarrow> Point \<Rightarrow> Point list \<Rightarrow> bool" where
  "simplePath S a b ps =
     (ps \<noteq> [] \<and> hd ps = a \<and> last ps = b \<and> distinct ps \<and> set ps \<subseteq> S
      \<and> successively adjacent ps)"

definition uniquePaths :: "Point set \<Rightarrow> bool" where
  "uniquePaths S = (\<forall>a\<in>S. \<forall>b\<in>S. \<exists>!ps. simplePath S a b ps)"

lemma adjacent_sym: "adjacent p q \<Longrightarrow> adjacent q p"
  by (auto simp: adjacent_def)

lemma adjacent_irrefl [simp]: "\<not> adjacent p p"
  by (simp add: adjacent_def)

lemma simplePath_mono: "simplePath S a b ps \<Longrightarrow> S \<subseteq> T \<Longrightarrow> simplePath T a b ps"
  by (auto simp: simplePath_def)

lemma simplePath_restrict:
  "simplePath (insert v S) a b ps \<Longrightarrow> v \<notin> set ps \<Longrightarrow> simplePath S a b ps"
  by (auto simp: simplePath_def)

lemma simplePath_ends: "simplePath S a b ps \<Longrightarrow> a \<in> S \<and> b \<in> S \<and> a \<in> set ps \<and> b \<in> set ps"
  by (auto simp: simplePath_def)

lemma simplePath_single: "a \<in> S \<Longrightarrow> simplePath S a a [a]"
  by (simp add: simplePath_def)

text \<open>A path through a leaf ends in it.\<close>

lemma leaf_is_end:
  assumes p: "simplePath (insert v S) a b ps" and v: "v \<in> set ps" "v \<notin> S"
    and leaf: "\<forall>w\<in>S. adjacent w v \<longrightarrow> w = u"
  shows "a = v \<or> b = v"
proof (rule ccontr)
  assume n: "\<not> (a = v \<or> b = v)"
  from v(1) obtain xs ys where ps: "ps = xs @ v # ys" by (auto dest: split_list)
  from p ps n have xs: "xs \<noteq> []" by (auto simp: simplePath_def)
  from p ps n have ys: "ys \<noteq> []" by (auto simp: simplePath_def)
  from p ps have d: "distinct (xs @ v # ys)" and s: "set xs \<subseteq> insert v S" "set ys \<subseteq> insert v S"
    and c: "successively adjacent (xs @ v # ys)"
    by (auto simp: simplePath_def)
  from c xs have 1: "adjacent (last xs) v"
    by (simp add: successively_append_iff)
  from c ys have 2: "adjacent v (hd ys)"
    by (cases ys) (auto simp: successively_append_iff successively_Cons)
  from xs ys have m: "last xs \<in> set xs" "hd ys \<in> set ys" by simp_all
  from d have dd: "v \<notin> set xs" "v \<notin> set ys" "set xs \<inter> set ys = {}" by auto
  from m(1) dd(1) s(1) have 3: "last xs \<in> S" by blast
  from m(2) dd(2) s(2) have 4: "hd ys \<in> S" by blast
  from leaf 1 3 have "last xs = u" by blast
  moreover from leaf adjacent_sym [OF 2] 4 have "hd ys = u" by blast
  moreover have "last xs \<noteq> hd ys"
  proof
    assume "last xs = hd ys"
    with m have "hd ys \<in> set xs \<inter> set ys" by simp
    with dd(3) show False by simp
  qed
  ultimately show False by simp
qed

text \<open>A path that starts in a leaf is the leaf alone, or the leaf followed by a path
  from its only neighbour.\<close>

lemma leaf_start:
  assumes p: "simplePath (insert v S) v b ps" and v: "v \<notin> S"
    and leaf: "\<forall>w\<in>S. adjacent w v \<longrightarrow> w = u"
  shows "(b = v \<and> ps = [v]) \<or> (b \<noteq> v \<and> (\<exists>ps'. ps = v # ps' \<and> simplePath S u b ps'))"
proof -
  from p obtain ps' where ps: "ps = v # ps'" by (cases ps) (auto simp: simplePath_def)
  show ?thesis
  proof (cases ps')
    case Nil
    with p ps show ?thesis by (auto simp: simplePath_def)
  next
    case (Cons w ws)
    from p ps have d: "v \<notin> set ps'" "distinct ps'" and s: "set ps' \<subseteq> insert v S"
      and c: "successively adjacent (v # ps')" and l: "last ps' = b"
      using Cons by (auto simp: simplePath_def)
    from d s have s': "set ps' \<subseteq> S" by auto
    from c Cons have "adjacent v w" by (simp add: successively_Cons)
    with leaf s' Cons have "w = u" by (auto dest: adjacent_sym)
    moreover from c Cons have "successively adjacent ps'" by (simp add: successively_Cons)
    ultimately have "simplePath S u b ps'" using Cons d s' l by (simp add: simplePath_def)
    moreover from this v have "b \<noteq> v" by (auto dest: simplePath_ends)
    ultimately show ?thesis using ps by blast
  qed
qed

lemma simplePath_rev: "simplePath S a b ps \<Longrightarrow> simplePath S b a (rev ps)"
proof -
  assume p: "simplePath S a b ps"
  from p have "successively (\<lambda>x y. adjacent y x) ps"
    unfolding simplePath_def by (auto elim!: successively_mono dest: adjacent_sym)
  with p show ?thesis
    unfolding simplePath_def by (simp add: hd_rev last_rev successively_rev)
qed

lemma uniquePaths_leaf:
  assumes U: "uniquePaths S" and u: "u \<in> S" and v: "v \<notin> S" and a: "adjacent u v"
    and leaf: "\<forall>w\<in>S. adjacent w v \<longrightarrow> w = u"
  shows "uniquePaths (insert v S)"
proof -
  have old: "\<exists>!ps. simplePath (insert v S) a b ps" if "a \<in> S" "b \<in> S" for a b
  proof -
    from U that obtain ps where ps: "simplePath S a b ps"
      and un: "\<And>qs. simplePath S a b qs \<Longrightarrow> qs = ps"
      unfolding uniquePaths_def by blast
    have "qs = ps" if q: "simplePath (insert v S) a b qs" for qs
    proof -
      have "v \<notin> set qs"
      proof
        assume "v \<in> set qs"
        from leaf_is_end [OF q this v leaf] \<open>a \<in> S\<close> \<open>b \<in> S\<close> v show False by blast
      qed
      from un [OF simplePath_restrict [OF q this]] show ?thesis .
    qed
    moreover have "simplePath (insert v S) a b ps" using ps by (auto intro: simplePath_mono)
    ultimately show ?thesis by blast
  qed
  have start: "\<exists>!ps. simplePath (insert v S) v b ps" if "b \<in> S" for b
  proof -
    from U u that obtain ps where ps: "simplePath S u b ps"
      and un: "\<And>qs. simplePath S u b qs \<Longrightarrow> qs = ps"
      unfolding uniquePaths_def by blast
    from ps v a have "simplePath (insert v S) v b (v # ps)"
      by (cases ps) (auto simp: simplePath_def successively_Cons dest: adjacent_sym)
    moreover have "qs = v # ps" if q: "simplePath (insert v S) v b qs" for qs
    proof -
      from leaf_start [OF q v leaf] \<open>b \<in> S\<close> v obtain ps' where
        "qs = v # ps'" "simplePath S u b ps'" by blast
      with un [of ps'] show ?thesis by simp
    qed
    ultimately show ?thesis by blast
  qed
  have self: "\<exists>!ps. simplePath (insert v S) v v ps"
  proof -
    have "simplePath (insert v S) v v [v]" by (simp add: simplePath_def)
    moreover have "qs = [v]" if q: "simplePath (insert v S) v v qs" for qs
      using leaf_start [OF q v leaf] by blast
    ultimately show ?thesis by blast
  qed
  have fin: "\<exists>!ps. simplePath (insert v S) a v ps" if "a \<in> S" for a
  proof -
    from start [OF that] obtain ps where ps: "simplePath (insert v S) v a ps"
      and un: "\<And>qs. simplePath (insert v S) v a qs \<Longrightarrow> qs = ps"
      by blast
    have "simplePath (insert v S) a v (rev ps)" using simplePath_rev [OF ps] .
    moreover have "qs = rev ps" if q: "simplePath (insert v S) a v qs" for qs
    proof -
      from un [OF simplePath_rev [OF q]] have "rev (rev qs) = rev ps" by simp
      then show ?thesis by simp
    qed
    ultimately show ?thesis by blast
  qed
  show ?thesis
    unfolding uniquePaths_def
  proof (intro ballI)
    fix a b
    assume ab: "a \<in> insert v S" "b \<in> insert v S"
    show "\<exists>!ps. simplePath (insert v S) a b ps"
    proof (cases "a = v")
      case av: True
      show ?thesis
      proof (cases "b = v")
        case True
        with av self show ?thesis by simp
      next
        case False
        with ab have "b \<in> S" by simp
        from start [OF this] av show ?thesis by simp
      qed
    next
      case False
      with ab have aS: "a \<in> S" by simp
      show ?thesis
      proof (cases "b = v")
        case True
        with fin [OF aS] show ?thesis by simp
      next
        case False
        with ab have "b \<in> S" by simp
        from old [OF aS this] show ?thesis .
      qed
    qed
  qed
qed

subsection \<open>The shape of a carved maze\<close>

text \<open>
  The carving moves over the cells with odd coordinates. In a carved maze the open cells
  lie inside the border, no cell with two even coordinates is open, and an open cell
  between two odd-coordinate cells has both of them open.
\<close>

definition lattice :: "Point \<Rightarrow> bool" where
  "lattice p = (odd (fst p) \<and> odd (snd p))"

definition mazeShape :: "nat \<Rightarrow> Point set \<Rightarrow> bool" where
  "mazeShape n S =
     ((\<forall>p\<in>S. interior n p \<and> \<not> (even (fst p) \<and> even (snd p)))
      \<and> (\<forall>p\<in>S. even (snd p) \<longrightarrow> (fst p, snd p - 1) \<in> S \<and> (fst p, snd p + 1) \<in> S)
      \<and> (\<forall>p\<in>S. even (fst p) \<longrightarrow> (fst p - 1, snd p) \<in> S \<and> (fst p + 1, snd p) \<in> S))"

definition perfect :: "nat \<Rightarrow> Point set \<Rightarrow> bool" where
  "perfect n S = (mazeShape n S \<and> uniquePaths S)"

lemma adjacent_iff:
  "adjacent w p \<longleftrightarrow> w = (fst p + 1, snd p) \<or> w = (fst p - 1, snd p)
      \<or> w = (fst p, snd p + 1) \<or> w = (fst p, snd p - 1)"
  by (cases w; cases p) (auto simp: adjacent_def)

lemma carveDirections_cases:
  assumes "d \<in> set carveDirections"
  obtains "d = (0, -2)" | "d = (0, 2)" | "d = (-2, 0)" | "d = (2, 0)"
  using assms by (auto simp: carveDirections_def)

text \<open>
  One carving step, on the set of open cells: from an open lattice cell \<open>u\<close> the cell
  \<open>v\<close> two steps away, a wall so far, is opened together with the cell \<open>m\<close> between.
\<close>

lemma carve_step_shape:
  assumes sh: "mazeShape n S" and u: "u \<in> S" "lattice u"
    and d: "d \<in> set carveDirections"
    and v: "v = (fst u + fst d, snd u + snd d)" "interior n v"
    and m: "m = (fst u + fst d div 2, snd u + snd d div 2)"
  shows "mazeShape n (insert v (insert m S))"
proof -
  from sh u(1) have iu: "interior n u" by (auto simp: mazeShape_def)
  from d show ?thesis
  proof (cases rule: carveDirections_cases)
    case 1
    with v m u iu have e: "v = (fst u, snd u - 2)" "m = (fst u, snd u - 1)"
      and im: "interior n m" and "odd (fst u)" "odd (snd u)"
      by (auto simp: lattice_def interior_def)
    with sh u(1) v(2) show ?thesis unfolding mazeShape_def by auto
  next
    case 2
    with v m u iu have e: "v = (fst u, snd u + 2)" "m = (fst u, snd u + 1)"
      and im: "interior n m" and "odd (fst u)" "odd (snd u)"
      by (auto simp: lattice_def interior_def)
    with sh u(1) v(2) show ?thesis unfolding mazeShape_def by auto
  next
    case 3
    with v m u iu have e: "v = (fst u - 2, snd u)" "m = (fst u - 1, snd u)"
      and im: "interior n m" and "odd (fst u)" "odd (snd u)"
      by (auto simp: lattice_def interior_def)
    with sh u(1) v(2) show ?thesis unfolding mazeShape_def by auto
  next
    case 4
    with v m u iu have e: "v = (fst u + 2, snd u)" "m = (fst u + 1, snd u)"
      and im: "interior n m" and "odd (fst u)" "odd (snd u)"
      by (auto simp: lattice_def interior_def)
    with sh u(1) v(2) show ?thesis unfolding mazeShape_def by auto
  qed
qed

lemma carve_step_leaves:
  assumes sh: "mazeShape n S" and u: "u \<in> S" "lattice u"
    and d: "d \<in> set carveDirections"
    and v: "v = (fst u + fst d, snd u + snd d)" "v \<notin> S"
    and m: "m = (fst u + fst d div 2, snd u + snd d div 2)"
  shows "m \<notin> S" and "adjacent u m" and "\<forall>w\<in>S. adjacent w m \<longrightarrow> w = u"
    and "v \<noteq> m" and "adjacent m v" and "\<forall>w\<in>insert m S. adjacent w v \<longrightarrow> w = m"
proof -
  from u(2) have o: "odd (fst u)" "odd (snd u)" by (auto simp: lattice_def)
  have sh1: "\<And>p. p \<in> S \<Longrightarrow> \<not> (even (fst p) \<and> even (snd p))"
    and sh2: "\<And>p. p \<in> S \<Longrightarrow> even (snd p) \<Longrightarrow> (fst p, snd p - 1) \<in> S \<and> (fst p, snd p + 1) \<in> S"
    and sh3: "\<And>p. p \<in> S \<Longrightarrow> even (fst p) \<Longrightarrow> (fst p - 1, snd p) \<in> S \<and> (fst p + 1, snd p) \<in> S"
    using sh by (auto simp: mazeShape_def)
  have vm: "v \<noteq> m \<and> adjacent u m \<and> adjacent m v"
    using d v(1) m by (cases rule: carveDirections_cases) (auto simp: adjacent_def)
  then show "v \<noteq> m" "adjacent u m" "adjacent m v" by simp_all
  show mS: "m \<notin> S"
  proof
    assume a: "m \<in> S"
    from d show False
    proof (cases rule: carveDirections_cases)
      case 1
      with sh2 [OF a] m v o show ?thesis by (auto simp: algebra_simps)
    next
      case 2
      with sh2 [OF a] m v o show ?thesis by (auto simp: algebra_simps)
    next
      case 3
      with sh3 [OF a] m v o show ?thesis by (auto simp: algebra_simps)
    next
      case 4
      with sh3 [OF a] m v o show ?thesis by (auto simp: algebra_simps)
    qed
  qed
  show "\<forall>w\<in>S. adjacent w m \<longrightarrow> w = u"
  proof (intro ballI impI)
    fix w assume w: "w \<in> S" "adjacent w m"
    from d show "w = u"
    proof (cases rule: carveDirections_cases)
      case 1
      with w(2) m v(1) have "w = u \<or> w = v \<or> (even (fst w) \<and> even (snd w))"
        using o by (cases u) (auto simp: adjacent_iff)
      with w(1) v(2) sh1 [OF w(1)] show ?thesis by auto
    next
      case 2
      with w(2) m v(1) have "w = u \<or> w = v \<or> (even (fst w) \<and> even (snd w))"
        using o by (cases u) (auto simp: adjacent_iff)
      with w(1) v(2) sh1 [OF w(1)] show ?thesis by auto
    next
      case 3
      with w(2) m v(1) have "w = u \<or> w = v \<or> (even (fst w) \<and> even (snd w))"
        using o by (cases u) (auto simp: adjacent_iff)
      with w(1) v(2) sh1 [OF w(1)] show ?thesis by auto
    next
      case 4
      with w(2) m v(1) have "w = u \<or> w = v \<or> (even (fst w) \<and> even (snd w))"
        using o by (cases u) (auto simp: adjacent_iff)
      with w(1) v(2) sh1 [OF w(1)] show ?thesis by auto
    qed
  qed
  show "\<forall>w\<in>insert m S. adjacent w v \<longrightarrow> w = m"
  proof (intro ballI impI)
    fix w assume w: "w \<in> insert m S" "adjacent w v"
    from d have "even (fst d)" "even (snd d)" by (auto simp: carveDirections_def)
    with v(1) o have ov: "odd (fst v)" "odd (snd v)" by simp_all
    show "w = m"
    proof (rule ccontr)
      assume "w \<noteq> m"
      with w(1) have wS: "w \<in> S" by simp
      from w(2) have "w = (fst v + 1, snd v) \<or> w = (fst v - 1, snd v)
          \<or> w = (fst v, snd v + 1) \<or> w = (fst v, snd v - 1)"
        by (simp add: adjacent_iff)
      then have "v \<in> S"
      proof (elim disjE)
        assume e: "w = (fst v + 1, snd v)"
        with ov have "even (fst w)" by simp
        from sh3 [OF wS this] e show ?thesis by simp
      next
        assume e: "w = (fst v - 1, snd v)"
        with ov have "even (fst w)" by simp
        from sh3 [OF wS this] e show ?thesis by simp
      next
        assume e: "w = (fst v, snd v + 1)"
        with ov have "even (snd w)" by simp
        from sh2 [OF wS this] e show ?thesis by simp
      next
        assume e: "w = (fst v, snd v - 1)"
        with ov have "even (snd w)" by simp
        from sh2 [OF wS this] e show ?thesis by simp
      qed
      with v(2) show False by simp
    qed
  qed
qed

lemma carve_step_perfect:
  assumes "perfect n S" and "u \<in> S" and "lattice u" and "d \<in> set carveDirections"
    and "v = (fst u + fst d, snd u + snd d)" and "interior n v" and "v \<notin> S"
    and "m = (fst u + fst d div 2, snd u + snd d div 2)"
  shows "perfect n (insert v (insert m S))"
proof -
  from assms(1) have sh: "mazeShape n S" and U: "uniquePaths S" by (simp_all add: perfect_def)
  note l = carve_step_leaves [OF sh assms(2,3,4,5,7,8)]
  from uniquePaths_leaf [OF U assms(2) l(1) l(2) l(3)] have "uniquePaths (insert m S)" .
  from uniquePaths_leaf [OF this _ _ l(5) l(6)] l(4) assms(7)
  have "uniquePaths (insert v (insert m S))" by simp
  with carve_step_shape [OF sh assms(2,3,4,5,6,8)] show ?thesis by (simp add: perfect_def)
qed

lemma distinct_singleton: "ps \<noteq> [] \<Longrightarrow> distinct ps \<Longrightarrow> set ps \<subseteq> {a} \<Longrightarrow> ps = [a]"
proof (cases ps)
  case Nil
  assume "ps \<noteq> []"
  with Nil show ?thesis by simp
next
  case (Cons p qs)
  assume "distinct ps" "set ps \<subseteq> {a}"
  with Cons show ?thesis by (cases qs) auto
qed

lemma uniquePaths_single: "uniquePaths {a}"
  unfolding uniquePaths_def
proof (intro ballI)
  fix b c assume "b \<in> {a}" "c \<in> {a}"
  then have e: "b = a" "c = a" by simp_all
  have "simplePath {a} a a [a]" by (simp add: simplePath_def)
  moreover have "ps = [a]" if "simplePath {a} a a ps" for ps
    using that distinct_singleton [of ps a] by (simp add: simplePath_def)
  ultimately show "\<exists>!ps. simplePath {a} b c ps" unfolding e by blast
qed

lemma perfect_start: "3 \<le> n \<Longrightarrow> perfect n {(1, 1)}"
  by (simp add: perfect_def mazeShape_def interior_def uniquePaths_single)

subsection \<open>The carving recursion\<close>

text \<open>
  A cell is closed when its four two-step neighbours inside the border are open. A call
  of \<open>carvePath\<close> returns, keeps the open cells a tree of the shape above, and leaves
  closed every odd-coordinate cell it has opened: the depth-first search misses nothing.
\<close>

definition closedAt :: "nat \<Rightarrow> Point set \<Rightarrow> Point \<Rightarrow> bool" where
  "closedAt n S p = (\<forall>d\<in>set carveDirections.
     interior n (fst p + fst d, snd p + snd d) \<longrightarrow> (fst p + fst d, snd p + snd d) \<in> S)"

definition carved :: "nat \<Rightarrow> Grid \<Rightarrow> Grid \<Rightarrow> bool" where
  "carved n g g' =
     (wf_grid n g' \<and> perfect n (opened g') \<and> opened g \<subseteq> opened g'
      \<and> (\<forall>p\<in>opened g' - opened g. lattice p \<longrightarrow> closedAt n (opened g') p))"

lemma closedAt_mono: "closedAt n S p \<Longrightarrow> S \<subseteq> T \<Longrightarrow> closedAt n T p"
  unfolding closedAt_def by blast

lemma between_inGrid:
  assumes "interior n (x, y)" and "interior n (x + dx, y + dy)"
    and "(dx, dy) \<in> set carveDirections"
  shows "inGrid n (x + dx div 2, y + dy div 2)" and "\<not> lattice (x + dx div 2, y + dy div 2) \<or> \<not> lattice (x, y)"
  using assms by (auto simp: interior_def inGrid_def carveDirections_def lattice_def)

lemma lattice_step: "lattice (x, y) \<Longrightarrow> (dx, dy) \<in> set carveDirections \<Longrightarrow> lattice (x + dx, y + dy)"
  by (auto simp: lattice_def carveDirections_def)

lemma cellAt_opened:
  assumes "wf_grid n g" and "inGrid n p"
  obtains c where "cellAt g (fst p) (snd p) = Inr (Some c)" and "c = WALL \<longleftrightarrow> p \<notin> opened g"
  using assms cellAt_wf [OF assms] by (simp add: opened_def isOpen_def)

lemma carveLoop_skip:
  "\<not> (0 < x + dx \<and> x + dx < int n - 1 \<and> 0 < y + dy \<and> y + dy < int n - 1)
    \<Longrightarrow> carveLoop n rnd (maze, k) x y ((dx, dy) # dirs) = carveLoop n rnd (maze, k) x y dirs"
  by (auto simp: Let_def)

lemma carveLoop_open:
  "cellAt maze (x + dx) (y + dy) = Inr c \<Longrightarrow> c \<noteq> Some WALL
    \<Longrightarrow> carveLoop n rnd (maze, k) x y ((dx, dy) # dirs) = carveLoop n rnd (maze, k) x y dirs"
  by (auto simp: Let_def)

lemma carveLoop_carve:
  "0 < x + dx \<and> x + dx < int n - 1 \<and> 0 < y + dy \<and> y + dy < int n - 1
    \<Longrightarrow> cellAt maze (x + dx) (y + dy) = Inr (Some WALL)
    \<Longrightarrow> setCell maze (x + dx) (y + dy) PATH = Inr maze1
    \<Longrightarrow> setCell maze1 (x + dx div 2) (y + dy div 2) PATH = Inr maze2
    \<Longrightarrow> carveLoop n rnd (maze, k) x y ((dx, dy) # dirs)
        = (case carvePath n rnd (maze2, k) (x + dx) (y + dy) of
             Inl e \<Rightarrow> Inl e
           | Inr st \<Rightarrow> carveLoop n rnd st x y dirs)"
  by (simp add: Let_def)

lemma carve_correct:
  "shuffles rnd \<Longrightarrow> wf_grid n (fst st) \<Longrightarrow> interior n (x, y) \<Longrightarrow> lattice (x, y)
    \<Longrightarrow> perfect n (insert (x, y) (opened (fst st)))
    \<Longrightarrow> \<exists>st'. carvePath n rnd st x y = Inr st'
          \<and> wf_grid n (fst st') \<and> perfect n (opened (fst st'))
          \<and> insert (x, y) (opened (fst st)) \<subseteq> opened (fst st')
          \<and> (\<forall>p\<in>opened (fst st') - opened (fst st). lattice p \<longrightarrow> closedAt n (opened (fst st')) p)
          \<and> closedAt n (opened (fst st')) (x, y)"
  "shuffles rnd \<Longrightarrow> wf_grid n (fst st) \<Longrightarrow> interior n (x, y) \<Longrightarrow> lattice (x, y)
    \<Longrightarrow> (x, y) \<in> opened (fst st) \<Longrightarrow> perfect n (opened (fst st))
    \<Longrightarrow> set ds \<subseteq> set carveDirections
    \<Longrightarrow> \<exists>st'. carveLoop n rnd st x y ds = Inr st' \<and> carved n (fst st) (fst st')
          \<and> (\<forall>d\<in>set ds. interior n (x + fst d, y + snd d)
                \<longrightarrow> (x + fst d, y + snd d) \<in> opened (fst st'))"
proof (induction n rnd st x y and n rnd st x y ds rule: carvePath_carveLoop.induct)
  case (1 n rnd maze k x y)
  from "1.prems" have wf: "wf_grid n maze" and int: "interior n (x, y)" by simp_all
  from setCell_opened [OF wf interior_inGrid [OF int], of PATH] obtain maze1 where
    s: "setCell maze x y PATH = Inr maze1" and wf1: "wf_grid n maze1"
    and o1: "opened maze1 = insert (x, y) (opened maze)" by auto
  from "1.prems"(1) have r: "set (rnd k) = set carveDirections" by (simp add: shuffles_def)
  from "1.IH" [OF s "1.prems"(1) _ int "1.prems"(4)] wf1 o1 "1.prems"(5) r
  obtain st' where l: "carveLoop n rnd (maze1, Suc k) x y (rnd k) = Inr st'"
    and c: "carved n maze1 (fst st')"
    and d: "\<forall>d\<in>set (rnd k). interior n (x + fst d, y + snd d)
                \<longrightarrow> (x + fst d, y + snd d) \<in> opened (fst st')"
    by auto
  from d r have cl: "closedAt n (opened (fst st')) (x, y)" by (simp add: closedAt_def)
  have "carvePath n rnd (maze, k) x y = Inr st'" using s l by simp
  moreover from c o1 have "insert (x, y) (opened maze) \<subseteq> opened (fst st')" by (simp add: carved_def)
  moreover have "closedAt n (opened (fst st')) p"
    if "p \<in> opened (fst st') - opened maze" "lattice p" for p
  proof (cases "p = (x, y)")
    case True
    with cl show ?thesis by simp
  next
    case False
    with that o1 have "p \<in> opened (fst st') - opened maze1" by simp
    with c that(2) show ?thesis by (simp add: carved_def)
  qed
  ultimately show ?case using c cl by (auto simp: carved_def)
next
  case (2 n rnd maze k x y)
  then show ?case by (simp add: carved_def)
next
  case (3 n rnd maze k x y dx dy dirs)
  let ?v = "(x + dx, y + dy)"
  let ?m = "(x + dx div 2, y + dy div 2)"
  from "3.prems" have sh: "shuffles rnd" and wf: "wf_grid n maze" and int: "interior n (x, y)"
    and lat: "lattice (x, y)" and xy: "(x, y) \<in> opened maze" and per: "perfect n (opened maze)"
    and d: "(dx, dy) \<in> set carveDirections" and ds: "set dirs \<subseteq> set carveDirections"
    by simp_all
  show ?case
  proof (cases "0 < x + dx \<and> x + dx < int n - 1 \<and> 0 < y + dy \<and> y + dy < int n - 1")
    case False
    from "3.IH"(4) [OF refl refl False sh _ int lat _ _ ds] wf xy per
    obtain st' where l: "carveLoop n rnd (maze, k) x y dirs = Inr st'"
      and c: "carved n maze (fst st')"
      and r: "\<forall>d\<in>set dirs. interior n (x + fst d, y + snd d)
                \<longrightarrow> (x + fst d, y + snd d) \<in> opened (fst st')"
      by auto
    from l have "carveLoop n rnd (maze, k) x y ((dx, dy) # dirs) = Inr st'"
      by (simp only: carveLoop_skip [OF False])
    moreover from False have "\<not> interior n ?v" by (simp add: interior_def)
    ultimately show ?thesis using c r by auto
  next
    case g: True
    then have iv: "interior n ?v" by (simp add: interior_def)
    from cellAt_opened [OF wf interior_inGrid [OF iv]] obtain c where
      c: "cellAt maze (x + dx) (y + dy) = Inr (Some c)" and cw: "c = WALL \<longleftrightarrow> ?v \<notin> opened maze"
      by auto
    show ?thesis
    proof (cases "c = WALL")
      case False
      then have nw: "Some c \<noteq> Some WALL" by simp
      from "3.IH"(3) [OF refl refl g c nw sh _ int lat _ _ ds] wf xy per
      obtain st' where l: "carveLoop n rnd (maze, k) x y dirs = Inr st'"
        and cv: "carved n maze (fst st')"
        and r: "\<forall>d\<in>set dirs. interior n (x + fst d, y + snd d)
                  \<longrightarrow> (x + fst d, y + snd d) \<in> opened (fst st')"
        by auto
      from l have "carveLoop n rnd (maze, k) x y ((dx, dy) # dirs) = Inr st'"
        by (simp only: carveLoop_open [OF c nw])
      moreover from False cw cv have "?v \<in> opened (fst st')" by (auto simp: carved_def)
      ultimately show ?thesis using cv r by auto
    next
      case w: True
      then have cw': "Some c = Some WALL" by simp
      from w cw have vn: "?v \<notin> opened maze" by simp
      from setCell_opened [OF wf interior_inGrid [OF iv], of PATH] obtain maze1 where
        s1: "setCell maze (x + dx) (y + dy) PATH = Inr maze1" and wf1: "wf_grid n maze1"
        and o1: "opened maze1 = insert ?v (opened maze)" by auto
      from setCell_opened [OF wf1 between_inGrid(1) [OF int iv d], of PATH] obtain maze2 where
        s2: "setCell maze1 (x + dx div 2) (y + dy div 2) PATH = Inr maze2"
        and wf2: "wf_grid n maze2"
        and o2: "opened maze2 = insert ?m (opened maze1)" by auto
      from o1 o2 have o2': "opened maze2 = insert ?v (insert ?m (opened maze))" by auto
      have per2: "perfect n (opened maze2)"
        unfolding o2' using carve_step_perfect [OF per xy lat d _ iv vn, of ?m] by simp
      have iv2: "insert ?v (opened maze2) = opened maze2" using o2' by auto
      from "3.IH"(1) [OF refl refl g c cw' s1 s2 sh _ iv lattice_step [OF lat d]] wf2 per2 iv2
      obtain st1 where p1: "carvePath n rnd (maze2, k) (x + dx) (y + dy) = Inr st1"
        and wf3: "wf_grid n (fst st1)" and per3: "perfect n (opened (fst st1))"
        and sub3: "opened maze2 \<subseteq> opened (fst st1)"
        and new3: "\<forall>p\<in>opened (fst st1) - opened maze2. lattice p
            \<longrightarrow> closedAt n (opened (fst st1)) p"
        and clv: "closedAt n (opened (fst st1)) ?v"
        by auto
      from sub3 o2' xy have xy3: "(x, y) \<in> opened (fst st1)" by auto
      from "3.IH"(2) [OF refl refl g c cw' s1 s2 p1 sh wf3 int lat xy3 per3 ds]
      obtain st' where l: "carveLoop n rnd st1 x y dirs = Inr st'"
        and cv: "carved n (fst st1) (fst st')"
        and r: "\<forall>d\<in>set dirs. interior n (x + fst d, y + snd d)
                  \<longrightarrow> (x + fst d, y + snd d) \<in> opened (fst st')"
        by auto
      from cv have sub4: "opened (fst st1) \<subseteq> opened (fst st')" by (simp add: carved_def)
      from c w have "cellAt maze (x + dx) (y + dy) = Inr (Some WALL)" by simp
      from carveLoop_carve [OF g this s1 s2] p1 l
      have run: "carveLoop n rnd (maze, k) x y ((dx, dy) # dirs) = Inr st'" by simp
      have nl: "\<not> lattice ?m" using between_inGrid(2) [OF int iv d] lat by simp
      have cl: "closedAt n (opened (fst st')) p"
        if p: "p \<in> opened (fst st') - opened maze" "lattice p" for p
      proof (cases "p \<in> opened (fst st1)")
        case False
        with p cv show ?thesis by (simp add: carved_def)
      next
        case in1: True
        have "closedAt n (opened (fst st1)) p"
        proof (cases "p \<in> opened maze2")
          case False
          with in1 new3 p(2) show ?thesis by simp
        next
          case True
          with o2' p nl have "p = ?v" by auto
          with clv show ?thesis by simp
        qed
        from closedAt_mono [OF this sub4] show ?thesis .
      qed
      have "carved n maze (fst st')"
        using cv cl sub3 sub4 o2' by (auto simp: carved_def)
      moreover from sub3 sub4 o2' have "?v \<in> opened (fst st')" by auto
      ultimately show ?thesis using run r by auto
    qed
  qed
qed

subsection \<open>The generated maze is perfect\<close>

lemma closed_row:
  assumes H: "\<forall>p\<in>S. lattice p \<longrightarrow> closedAt n S p" and s: "(1, 1) \<in> S"
  shows "interior n (1 + 2 * int i, 1) \<Longrightarrow> (1 + 2 * int i, 1) \<in> S"
proof (induction i)
  case 0
  with s show ?case by simp
next
  case (Suc i)
  then have "interior n (1 + 2 * int i, 1)" by (simp add: interior_def)
  from Suc.IH [OF this] have m: "(1 + 2 * int i, 1) \<in> S" .
  have "lattice (1 + 2 * int i, 1)" by (simp add: lattice_def)
  with H m have "closedAt n S (1 + 2 * int i, 1)" by blast
  then have "interior n (1 + 2 * int i + 2, 1) \<longrightarrow> (1 + 2 * int i + 2, 1) \<in> S"
    by (simp add: closedAt_def carveDirections_def)
  with Suc.prems show ?case by (simp add: algebra_simps)
qed

lemma closed_col:
  assumes H: "\<forall>p\<in>S. lattice p \<longrightarrow> closedAt n S p" and s: "(1, 1) \<in> S"
  shows "interior n (1 + 2 * int i, 1 + 2 * int j) \<Longrightarrow> (1 + 2 * int i, 1 + 2 * int j) \<in> S"
proof (induction j)
  case 0
  with closed_row [OF H s, of i] show ?case by simp
next
  case (Suc j)
  then have "interior n (1 + 2 * int i, 1 + 2 * int j)" by (simp add: interior_def)
  from Suc.IH [OF this] have m: "(1 + 2 * int i, 1 + 2 * int j) \<in> S" .
  have "lattice (1 + 2 * int i, 1 + 2 * int j)" by (simp add: lattice_def)
  with H m have "closedAt n S (1 + 2 * int i, 1 + 2 * int j)" by blast
  then have "interior n (1 + 2 * int i, 1 + 2 * int j + 2)
      \<longrightarrow> (1 + 2 * int i, 1 + 2 * int j + 2) \<in> S"
    by (simp add: closedAt_def carveDirections_def)
  with Suc.prems show ?case by (simp add: algebra_simps)
qed

lemma closed_spans:
  assumes H: "\<forall>p\<in>S. lattice p \<longrightarrow> closedAt n S p" and s: "(1, 1) \<in> S"
    and p: "lattice p" "interior n p"
  shows "p \<in> S"
proof -
  from p have "odd (fst p)" "0 < fst p" "odd (snd p)" "0 < snd p"
    by (auto simp: lattice_def interior_def)
  then obtain a b where "fst p = 2 * a + 1" "0 \<le> a" "snd p = 2 * b + 1" "0 \<le> b"
    by (auto elim!: oddE)
  then have "p = (1 + 2 * int (nat a), 1 + 2 * int (nat b))" by (cases p) simp
  with closed_col [OF H s, of "nat a" "nat b"] p(2) show ?thesis by simp
qed

lemma opened_replicate: "opened (replicate n (replicate n WALL)) = {}"
proof -
  have w: "wf_grid n (replicate n (replicate n WALL))" by (simp add: wf_grid_def list_all_length)
  have "\<not> isOpen (replicate n (replicate n WALL)) p" for p
  proof (cases "inGrid n p")
    case True
    then have "nat (snd p) < n" "nat (fst p) < n" by (auto simp: inGrid_def)
    then have "replicate n (replicate n WALL) ! nat (snd p) ! nat (fst p) = WALL" by simp
    with True show ?thesis by (simp add: isOpen_wf [OF w])
  next
    case False
    with isOpen_inGrid [OF w] show ?thesis by blast
  qed
  then show ?thesis by (simp add: opened_def)
qed

lemma marks_not_WALL [simp]: "PLAYER \<noteq> WALL" "EXIT \<noteq> WALL"
  by (simp_all add: PLAYER_def EXIT_def WALL_def)

lemma generateMaze_carved:
  assumes sh: "shuffles rnd" and n: "3 \<le> n"
  shows "\<exists>g S. generateMaze n rnd = Inr g \<and> wf_grid n g
      \<and> opened g = insert (int n - 2, int n - 2) S
      \<and> perfect n S \<and> (1, 1) \<in> S \<and> (\<forall>p\<in>S. lattice p \<longrightarrow> closedAt n S p)"
proof -
  let ?g0 = "replicate n (replicate n WALL)"
  have w0: "wf_grid n ?g0" by (simp add: wf_grid_def list_all_length)
  from n have i1: "interior n (1, 1)" by (simp add: interior_def)
  have l1: "lattice (1, 1)" by (simp add: lattice_def)
  from carve_correct(1) [of rnd n "(?g0, 0)" 1 1] sh w0 i1 l1 perfect_start [OF n]
  obtain st where c: "carvePath n rnd (?g0, 0) 1 1 = Inr st" and w1: "wf_grid n (fst st)"
    and p1: "perfect n (opened (fst st))" and s1: "(1, 1) \<in> opened (fst st)"
    and cl: "\<forall>p\<in>opened (fst st). lattice p \<longrightarrow> closedAt n (opened (fst st)) p"
    by (auto simp: opened_replicate)
  from setCell_opened [OF w1 interior_inGrid [OF i1], of PLAYER] obtain g2 where
    s2: "setCell (fst st) 1 1 PLAYER = Inr g2" and w2: "wf_grid n g2"
    and o2: "opened g2 = insert (1, 1) (opened (fst st))" by auto
  from n have "inGrid n (int n - 2, int n - 2)" by (simp add: inGrid_def)
  from setCell_opened [OF w2 this, of EXIT] obtain g3 where
    s3: "setCell g2 (int n - 2) (int n - 2) EXIT = Inr g3" and w3: "wf_grid n g3"
    and o3: "opened g3 = insert (int n - 2, int n - 2) (opened g2)" by auto
  from c s2 s3 have "generateMaze n rnd = Inr g3"
    by (cases st) (simp add: generateMaze_def)
  moreover from o2 o3 s1 have "opened g3 = insert (int n - 2, int n - 2) (opened (fst st))"
    by auto
  ultimately show ?thesis using w3 p1 s1 cl by blast
qed

text \<open>
  C2. Whatever the shuffles, the generator returns a grid of odd side \<open>n \<ge> 3\<close> (the
  source has \<open>n = 21\<close>) in which every open cell is joined to the start \<open>(1,1)\<close> by a
  path of open cells, every cell with odd coordinates inside the border is open, and any
  two open cells (so any two cells with odd coordinates) are joined by exactly one simple
  path of open cells: the open cells form a tree that spans the odd-coordinate cells.
\<close>

theorem generateMaze_perfect_maze:
  assumes "shuffles rnd" and "odd n" and "3 \<le> n"
  shows "\<exists>g. generateMaze n rnd = Inr g
     \<and> (\<forall>p. isOpen g p \<longrightarrow> (\<exists>ps. simplePath (opened g) (1, 1) p ps))
     \<and> (\<forall>p. lattice p \<and> interior n p \<longrightarrow> isOpen g p)
     \<and> (\<forall>p q. lattice p \<and> interior n p \<and> lattice q \<and> interior n q
           \<longrightarrow> (\<exists>!ps. simplePath (opened g) p q ps))
     \<and> uniquePaths (opened g)"
proof -
  from generateMaze_carved [OF assms(1,3)] obtain g S where
    g: "generateMaze n rnd = Inr g" and o: "opened g = insert (int n - 2, int n - 2) S"
    and p: "perfect n S" and s: "(1, 1) \<in> S" and cl: "\<forall>p\<in>S. lattice p \<longrightarrow> closedAt n S p"
    by blast
  have span: "q \<in> S" if "lattice q" "interior n q" for q
    using closed_spans [OF cl s that] .
  from assms(2,3) have "lattice (int n - 2, int n - 2)" "interior n (int n - 2, int n - 2)"
    by (auto simp: lattice_def interior_def)
  from span [OF this] o have oS: "opened g = S" by auto
  from p oS have U: "uniquePaths (opened g)" by (simp add: perfect_def)
  have 1: "\<exists>ps. simplePath (opened g) (1, 1) q ps" if "isOpen g q" for q
  proof -
    from that have "q \<in> opened g" by (simp add: opened_def)
    with U s oS show ?thesis unfolding uniquePaths_def by blast
  qed
  have 2: "isOpen g q" if "lattice q" "interior n q" for q
  proof -
    from span [OF that] oS have "q \<in> opened g" by simp
    then show ?thesis by (simp add: opened_def)
  qed
  have 3: "\<exists>!ps. simplePath (opened g) a b ps"
    if "lattice a" "interior n a" "lattice b" "interior n b" for a b
  proof -
    from that span oS have "a \<in> opened g" "b \<in> opened g" by auto
    with U show ?thesis unfolding uniquePaths_def by blast
  qed
  from g 1 2 3 U show ?thesis by blast
qed

theorem generateMaze_perfect_maze_witness:
  "shuffles (\<lambda>k. carveDirections) \<and> odd (5 :: nat) \<and> (3 :: nat) \<le> 5
   \<and> (\<exists>g. generateMaze 5 (\<lambda>k. carveDirections) = Inr g
     \<and> (\<forall>p. isOpen g p \<longrightarrow> (\<exists>ps. simplePath (opened g) (1, 1) p ps))
     \<and> (\<forall>p. lattice p \<and> interior 5 p \<longrightarrow> isOpen g p)
     \<and> (\<forall>p q. lattice p \<and> interior 5 p \<and> lattice q \<and> interior 5 q
           \<longrightarrow> (\<exists>!ps. simplePath (opened g) p q ps))
     \<and> uniquePaths (opened g))"
proof -
  have s: "shuffles (\<lambda>k. carveDirections)" by (simp add: shuffles_def carveDirections_def)
  have o: "odd (5 :: nat)" and l: "(3 :: nat) \<le> 5" by simp_all
  from generateMaze_perfect_maze [OF s o l] s show ?thesis by simp
qed

subsection \<open>The episode: the state of the component and its handlers\<close>

text \<open>
  The React state of \<^verbatim>\<open>MazeGame\<close> is one record. The score and the countdown
  \<^verbatim>\<open>timeLeft\<close> only feed the display and are left out; the tick of the timer that
  reaches zero is the event \<open>Timeout\<close>. \<^verbatim>\<open>Date.now()\<close> is the argument \<open>now\<close> of
  the handlers. Every handler runs on the state of the last render and its updates are
  applied before the next event, so a handler is a function from state to state; every
  updater function passed to a setter is taken to run once, as in a production build.
\<close>

datatype GameState = Ready | Playing | GameOver

datatype Key = ArrowUp | ArrowDown | ArrowLeft | ArrowRight

record MovePatterns =
  up :: nat
  down :: nat
  left :: nat
  right :: nat

record HalfMetrics =
  moves :: nat
  collisions :: nat
  time :: int

record Episode =
  maze :: Grid
  playerPos :: Point
  gameState :: GameState
  startTime :: int
  moveCount :: nat
  wallCollisions :: nat
  backtrackCount :: nat
  movementHistory :: "string list"
  visitedCells :: "string list"
  movePatterns :: MovePatterns
  firstHalfMetrics :: HalfMetrics
  heatmap :: "nat list list"
  optimalPath :: "Point list"
  actualPath :: "Point list"
  pathDeviation :: nat

text \<open>
  A JavaScript number that results from a division: the quotient of two integers is
  kept exact (its rounding to a double is not modelled), and a zero divisor gives
  \<^verbatim>\<open>Infinity\<close>, \<^verbatim>\<open>-Infinity\<close> or \<^verbatim>\<open>NaN\<close> as in IEEE 754; no division raises.
\<close>

datatype jsnum = Num rat | PosInfinity | NegInfinity | NaN

definition jsDiv :: "int \<Rightarrow> int \<Rightarrow> jsnum" where
  "jsDiv a b =
     (if b = 0 then (if a = 0 then NaN else if 0 < a then PosInfinity else NegInfinity)
      else Num (of_int a / of_int b))"

definition oneMinus :: "jsnum \<Rightarrow> jsnum" where
  "oneMinus q =
     (case q of Num r \<Rightarrow> Num (1 - r) | PosInfinity \<Rightarrow> NegInfinity
      | NegInfinity \<Rightarrow> PosInfinity | NaN \<Rightarrow> NaN)"

record PhaseMetrics =
  speed :: jsnum
  accuracy :: jsnum

record PerformanceOverTime =
  firstHalf :: PhaseMetrics
  secondHalf :: PhaseMetrics

text \<open>The interface \<^verbatim>\<open>MazeMetrics\<close>; the fields carry the prefix \<open>m\<close>.\<close>

record MazeMetrics =
  mCompletionTime :: int
  mTotalMoves :: nat
  mWallCollisions :: nat
  mBacktrackCount :: nat
  mPathLength :: nat
  mOptimalPathLength :: nat
  mPathEfficiency :: jsnum
  mAverageTimePerMove :: jsnum
  mMovementPatterns :: MovePatterns
  mHeatmap :: "nat list list"
  mPerformanceOverTime :: PerformanceOverTime
  mPathDeviation :: nat
  mOptimalPath :: "Point list"
  mActualPath :: "Point list"

definition startGame :: "nat \<Rightarrow> (nat \<Rightarrow> Point list) \<Rightarrow> int \<Rightarrow> error + Episode" where
  "startGame n rnd now =
     (case generateMaze n rnd of
        Inl e \<Rightarrow> Inl e
      | Inr newMaze \<Rightarrow>
          let startPoint = (1, 1);
              endPoint = (int n - 2, int n - 2)
          in case findOptimalPath n newMaze startPoint endPoint of
               Inl e \<Rightarrow> Inl e
             | Inr optimal \<Rightarrow>
                 Inr \<lparr> maze = newMaze,
                       playerPos = startPoint,
                       gameState = Playing,
                       startTime = now,
                       moveCount = 0,
                       wallCollisions = 0,
                       backtrackCount = 0,
                       movementHistory = [],
                       visitedCells = newSet [''1,1''],
                       movePatterns = \<lparr> up = 0, down = 0, left = 0, right = 0 \<rparr>,
                       firstHalfMetrics = \<lparr> moves = 0, collisions = 0, time = 0 \<rparr>,
                       heatmap = replicate n (replicate n 0),
                       optimalPath = optimal,
                       actualPath = [startPoint],
                       pathDeviation = 0 \<rparr>)"

text \<open>The \<^verbatim>\<open>switch\<close> of \<^verbatim>\<open>handleKeyDown\<close> pairs every arrow key with its direction.\<close>

fun keyDirection :: "Key \<Rightarrow> Point" where
  "keyDirection ArrowUp = (0, -1)"
| "keyDirection ArrowDown = (0, 1)"
| "keyDirection ArrowLeft = (-1, 0)"
| "keyDirection ArrowRight = (1, 0)"

fun directionKey :: "Key \<Rightarrow> string" where
  "directionKey ArrowUp = ''up''"
| "directionKey ArrowDown = ''down''"
| "directionKey ArrowLeft = ''left''"
| "directionKey ArrowRight = ''right''"

text \<open>\<^verbatim>\<open>{ ...prev, [directionKey]: prev[directionKey] + 1 }\<close>\<close>

fun countKey :: "Key \<Rightarrow> MovePatterns \<Rightarrow> MovePatterns" where
  "countKey ArrowUp prev = prev\<lparr> up := up prev + 1 \<rparr>"
| "countKey ArrowDown prev = prev\<lparr> down := down prev + 1 \<rparr>"
| "countKey ArrowLeft prev = prev\<lparr> left := left prev + 1 \<rparr>"
| "countKey ArrowRight prev = prev\<lparr> right := right prev + 1 \<rparr>"

fun keyCount :: "Key \<Rightarrow> MovePatterns \<Rightarrow> nat" where
  "keyCount ArrowUp p = up p"
| "keyCount ArrowDown p = down p"
| "keyCount ArrowLeft p = left p"
| "keyCount ArrowRight p = right p"

text \<open>
  \<^verbatim>\<open>newHeatmap[y][x]++\<close>: it throws on a missing row; on a missing column the source
  stores \<^verbatim>\<open>NaN\<close> in a new element, where the model stops with \<open>OffGrid\<close>.
\<close>

definition incCell :: "nat list list \<Rightarrow> int \<Rightarrow> int \<Rightarrow> error + nat list list" where
  "incCell h x y =
     (case cellAt h x y of
        Inl e \<Rightarrow> Inl e
      | Inr None \<Rightarrow> Inl OffGrid
      | Inr (Some c) \<Rightarrow> setCell h x y (c + 1))"

definition destination :: "Point \<Rightarrow> Key \<Rightarrow> Point" where
  "destination pos key = (fst pos + fst (keyDirection key), snd pos + snd (keyDirection key))"

definition phase1 :: "HalfMetrics \<Rightarrow> PhaseMetrics" where
  "phase1 fh =
     \<lparr> speed = (if moves fh > 0 then jsDiv (time fh) (int (moves fh)) else Num 0),
       accuracy = (if moves fh > 0
                   then oneMinus (jsDiv (int (collisions fh)) (int (moves fh))) else Num 0) \<rparr>"

text \<open>
  The record \<^verbatim>\<open>metrics\<close> that \<^verbatim>\<open>handleMove\<close> builds when the move reaches the exit:
  it reads the state \<open>s\<close> of the render in which the handler was created, so the counts
  do not include the present move but where the source adds one. The rows of
  \<^verbatim>\<open>heatmap\<close> are shared with the array the updater increments, so the heatmap handed
  over is the incremented one, \<open>newHeatmap\<close>.
\<close>

definition completionMetrics :: "int \<Rightarrow> Point \<Rightarrow> nat list list \<Rightarrow> Episode \<Rightarrow> MazeMetrics" where
  "completionMetrics now newPos newHeatmap s =
     (let totalTime = now - startTime s;
          finalDeviation = calculatePathDeviation (optimalPath s) (actualPath s @ [newPos]);
          fh = firstHalfMetrics s
      in \<lparr> mCompletionTime = totalTime,
            mTotalMoves = moveCount s + 1,
            mWallCollisions = wallCollisions s,
            mBacktrackCount = backtrackCount s,
            mPathLength = length (movementHistory s) + 1,
            mOptimalPathLength = length (optimalPath s),
            mPathEfficiency =
              jsDiv (int (length (optimalPath s))) (int (length (movementHistory s) + 1)),
            mAverageTimePerMove = jsDiv totalTime (int (moveCount s + 1)),
            mMovementPatterns = movePatterns s,
            mHeatmap = newHeatmap,
            mPerformanceOverTime =
              \<lparr> firstHalf = phase1 fh,
                secondHalf =
                  \<lparr> speed = jsDiv (totalTime - time fh) (int (moveCount s) - int (moves fh)),
                    accuracy = oneMinus (jsDiv (int (wallCollisions s) - int (collisions fh))
                                 (int (moveCount s) - int (moves fh))) \<rparr> \<rparr>,
            mPathDeviation = finalDeviation,
            mOptimalPath = optimalPath s,
            mActualPath = actualPath s @ [newPos] \<rparr>)"

definition handleMove :: "nat \<Rightarrow> int \<Rightarrow> Key \<Rightarrow> Episode \<Rightarrow> error + Episode" where
  "handleMove n now key s =
     (if gameState s \<noteq> Playing then Inr s
      else
        let newPos = destination (playerPos s) key;
            s1 = s\<lparr> movePatterns := countKey key (movePatterns s) \<rparr>
        in case cellAt (maze s) (fst newPos) (snd newPos) of
             Inl e \<Rightarrow> Inl e
           | Inr c \<Rightarrow>
               if c = Some WALL then Inr (s1\<lparr> wallCollisions := wallCollisions s + 1 \<rparr>)
               else
                 (case incCell (heatmap s) (fst newPos) (snd newPos) of
                    Inl e \<Rightarrow> Inl e
                  | Inr newHeatmap \<Rightarrow>
                      let newPosKey = posKey newPos;
                          s2 = s1\<lparr>
                            backtrackCount :=
                              (if newPosKey \<in> set (visitedCells s) then backtrackCount s + 1
                               else backtrackCount s),
                            visitedCells := newSet (visitedCells s @ [newPosKey]),
                            heatmap := newHeatmap,
                            movementHistory := movementHistory s @ [directionKey key],
                            moveCount := moveCount s + 1,
                            actualPath := actualPath s @ [newPos],
                            playerPos := newPos,
                            firstHalfMetrics :=
                              (if moveCount s = n * n div 2
                               then \<lparr> moves = moveCount s, collisions = wallCollisions s,
                                      time = now - startTime s \<rparr>
                               else firstHalfMetrics s) \<rparr>
                      in if fst newPos = int n - 2 \<and> snd newPos = int n - 2
                         then Inr (s2\<lparr>
                           pathDeviation :=
                             calculatePathDeviation (optimalPath s) (actualPath s @ [newPos]),
                           gameState := GameOver \<rparr>)
                         else Inr s2))"

text \<open>The timer effect ends a game that is being played.\<close>

definition timeout :: "Episode \<Rightarrow> Episode" where
  "timeout s = (if gameState s = Playing then s\<lparr> gameState := GameOver \<rparr> else s)"

text \<open>
  The record that the "Next Game" button hands to \<^verbatim>\<open>onComplete\<close>; the button is
  shown when the game is over, by success or by timeout.
\<close>

definition nextGameMetrics :: "nat \<Rightarrow> int \<Rightarrow> Episode \<Rightarrow> MazeMetrics" where
  "nextGameMetrics n now s =
     (let fh = firstHalfMetrics s
      in \<lparr> mCompletionTime = now - startTime s,
            mTotalMoves = moveCount s,
            mWallCollisions = wallCollisions s,
            mBacktrackCount = backtrackCount s,
            mPathLength = length (movementHistory s),
            mOptimalPathLength = length (optimalPath s),
            mPathEfficiency =
              jsDiv (int (length (optimalPath s))) (int (length (movementHistory s))),
            mAverageTimePerMove = jsDiv (now - startTime s) (int (moveCount s)),
            mMovementPatterns = movePatterns s,
            mHeatmap = heatmap s,
            mPerformanceOverTime =
              \<lparr> firstHalf = phase1 fh,
                secondHalf =
                  \<lparr> speed = (if moveCount s > moves fh
                             then jsDiv (now - startTime s - time fh)
                                    (int (moveCount s) - int (moves fh))
                             else Num 0),
                    accuracy = (if moveCount s > moves fh
                                then oneMinus (jsDiv (int (wallCollisions s) - int (collisions fh))
                                       (int (moveCount s) - int (moves fh)))
                                else Num 0) \<rparr> \<rparr>,
            mPathDeviation = pathDeviation s,
            mOptimalPath = optimalPath s,
            mActualPath = actualPath s @ [(int n - 2, int n - 2)] \<rparr>)"

datatype Event = Move Key int | Timeout

fun step :: "nat \<Rightarrow> Episode \<Rightarrow> Event \<Rightarrow> error + Episode" where
  "step n s (Move key now) = handleMove n now key s"
| "step n s Timeout = Inr (timeout s)"

fun run :: "nat \<Rightarrow> Event list \<Rightarrow> Episode \<Rightarrow> error + Episode" where
  "run n [] s = Inr s"
| "run n (ev # evs) s = (case step n s ev of Inl e \<Rightarrow> Inl e | Inr s' \<Rightarrow> run n evs s')"

subsection \<open>Wall collisions\<close>

text \<open>
  C8. While a game is being played, a move whose destination cell is a wall leaves the
  position, the path, the visited set, the backtrack count, the move count and the
  heatmap as they are and adds one to the collision count; and every move the handler
  accepts or rejects adds one to the counter of its direction.
\<close>

theorem handleMove_wall_collision:
  "(gameState s = Playing
      \<and> cellAt (maze s) (fst (destination (playerPos s) key)) (snd (destination (playerPos s) key))
          = Inr (Some WALL)
     \<longrightarrow> (\<exists>s'. handleMove n now key s = Inr s'
           \<and> playerPos s' = playerPos s \<and> wallCollisions s' = wallCollisions s + 1
           \<and> actualPath s' = actualPath s \<and> visitedCells s' = visitedCells s
           \<and> backtrackCount s' = backtrackCount s \<and> heatmap s' = heatmap s
           \<and> moveCount s' = moveCount s \<and> gameState s' = Playing
           \<and> keyCount key (movePatterns s') = keyCount key (movePatterns s) + 1))
   \<and> (gameState s = Playing \<and> handleMove n now key s = Inr s''
     \<longrightarrow> keyCount key (movePatterns s'') = keyCount key (movePatterns s) + 1)"
proof -
  have k: "keyCount key (countKey key p) = keyCount key p + 1" for p
    by (cases key) simp_all
  have 1: "\<exists>s'. handleMove n now key s = Inr s'
           \<and> playerPos s' = playerPos s \<and> wallCollisions s' = wallCollisions s + 1
           \<and> actualPath s' = actualPath s \<and> visitedCells s' = visitedCells s
           \<and> backtrackCount s' = backtrackCount s \<and> heatmap s' = heatmap s
           \<and> moveCount s' = moveCount s \<and> gameState s' = Playing
           \<and> keyCount key (movePatterns s') = keyCount key (movePatterns s) + 1"
    if "gameState s = Playing"
      "cellAt (maze s) (fst (destination (playerPos s) key)) (snd (destination (playerPos s) key))
          = Inr (Some WALL)"
    using that by (simp add: handleMove_def Let_def k)
  have 2: "keyCount key (movePatterns s'') = keyCount key (movePatterns s) + 1"
    if "gameState s = Playing" "handleMove n now key s = Inr s''"
    using that
    by (auto simp: handleMove_def Let_def k split: sum.splits if_splits)
  from 1 2 show ?thesis by blast
qed

definition exampleGrid :: Grid where
  "exampleGrid =
     [[''#'', ''#'', ''#'', ''#'', ''#''],
      [''#'', '' '', '' '', '' '', ''#''],
      [''#'', '' '', '' '', '' '', ''#''],
      [''#'', '' '', '' '', '' '', ''#''],
      [''#'', ''#'', ''#'', ''#'', ''#'']]"

definition exampleEpisode :: Episode where
  "exampleEpisode =
     \<lparr> maze = exampleGrid, playerPos = (1, 1), gameState = Playing, startTime = 0,
       moveCount = 0, wallCollisions = 0, backtrackCount = 0, movementHistory = [],
       visitedCells = [''1,1''],
       movePatterns = \<lparr> up = 0, down = 0, left = 0, right = 0 \<rparr>,
       firstHalfMetrics = \<lparr> moves = 0, collisions = 0, time = 0 \<rparr>,
       heatmap = replicate 5 (replicate 5 0), optimalPath = [], actualPath = [(1, 1)],
       pathDeviation = 0 \<rparr>"

theorem handleMove_wall_collision_witness:
  "gameState exampleEpisode = Playing
   \<and> cellAt (maze exampleEpisode) (fst (destination (playerPos exampleEpisode) ArrowUp))
        (snd (destination (playerPos exampleEpisode) ArrowUp)) = Inr (Some WALL)
   \<and> (\<exists>s'. handleMove 5 7 ArrowUp exampleEpisode = Inr s'
        \<and> playerPos s' = (1, 1) \<and> wallCollisions s' = 1 \<and> actualPath s' = [(1, 1)]
        \<and> up (movePatterns s') = 1)"
proof -
  have g: "gameState exampleEpisode = Playing" by (simp add: exampleEpisode_def)
  have c: "cellAt (maze exampleEpisode) (fst (destination (playerPos exampleEpisode) ArrowUp))
        (snd (destination (playerPos exampleEpisode) ArrowUp)) = Inr (Some WALL)"
    by (simp add: exampleEpisode_def exampleGrid_def destination_def cellAt_def jsGet_def WALL_def)
  from handleMove_wall_collision [of exampleEpisode ArrowUp 5 7] g c
  obtain s' where "handleMove 5 7 ArrowUp exampleEpisode = Inr s'"
    "playerPos s' = playerPos exampleEpisode"
    "wallCollisions s' = wallCollisions exampleEpisode + 1"
    "actualPath s' = actualPath exampleEpisode"
    "keyCount ArrowUp (movePatterns s') = keyCount ArrowUp (movePatterns exampleEpisode) + 1"
    by blast
  then have "handleMove 5 7 ArrowUp exampleEpisode = Inr s'
        \<and> playerPos s' = (1, 1) \<and> wallCollisions s' = 1 \<and> actualPath s' = [(1, 1)]
        \<and> up (movePatterns s') = 1"
    by (simp add: exampleEpisode_def)
  with g c show ?thesis by blast
qed

subsection \<open>The finder never fails on a grid of side \<open>n\<close>\<close>

lemma expand_total:
  assumes "wf_grid n g"
  shows "\<exists>r. expand n g point path dirs qv = Inr r"
proof (induction dirs arbitrary: qv)
  case Nil
  show ?case by (cases qv) simp
next
  case (Cons dir dirs)
  obtain queue visited where qv: "qv = (queue, visited)" by (cases qv)
  let ?p = "(fst point + fst dir, snd point + snd dir)"
  show ?case
  proof (cases "inGrid n ?p")
    case True
    from cellAt_wf [OF assms True] obtain c where "cellAt g (fst ?p) (snd ?p) = Inr c" by simp
    with True Cons.IH show ?thesis unfolding qv by (simp add: Let_def inGrid_def)
  next
    case False
    with Cons.IH [of "(queue, visited)"] show ?thesis unfolding qv
      by (auto simp: Let_def inGrid_def)
  qed
qed

lemma bfsLoop_total:
  assumes "wf_grid n g"
  shows "\<exists>r. bfsLoop n g endP queue visited = Inr r"
  using assms
proof (induction n g endP queue visited rule: bfsLoop.induct)
  case (1 n g endP visited)
  show ?case by simp
next
  case (2 n g endP point path queue visited)
  show ?case
  proof (cases "fst point = fst endP \<and> snd point = snd endP")
    case True
    then show ?thesis by simp
  next
    case False
    from expand_total [OF "2.prems", of point path directions "(queue, visited)"]
    obtain q' v' where e: "expand n g point path directions (queue, visited) = Inr (q', v')"
      by (metis surj_pair)
    from "2.IH" [OF False e refl "2.prems"] False e show ?thesis by simp
  qed
qed

lemma findOptimalPath_total: "wf_grid n g \<Longrightarrow> \<exists>r. findOptimalPath n g a b = Inr r"
  unfolding findOptimalPath_def by (rule bfsLoop_total)

subsection \<open>Invariants of an episode\<close>

definition heatmapSum :: "nat list list \<Rightarrow> nat" where
  "heatmapSum h = sum_list (map sum_list h)"

definition episodeInv :: "nat \<Rightarrow> Episode \<Rightarrow> bool" where
  "episodeInv n s =
     (wf_grid n (maze s) \<and> opened (maze s) \<subseteq> {p. interior n p}
      \<and> playerPos s \<in> opened (maze s) \<and> wf_grid n (heatmap s)
      \<and> heatmapSum (heatmap s) = moveCount s
      \<and> length (actualPath s) = moveCount s + 1
      \<and> length (movementHistory s) = moveCount s)"

text \<open>A move is accepted when the game is being played and the destination is no wall.\<close>

definition accepted :: "Episode \<Rightarrow> Key \<Rightarrow> bool" where
  "accepted s key =
     (gameState s = Playing
      \<and> (case cellAt (maze s) (fst (destination (playerPos s) key))
            (snd (destination (playerPos s) key)) of
           Inl e \<Rightarrow> False | Inr c \<Rightarrow> c \<noteq> Some WALL))"

fun acceptedMoves :: "nat \<Rightarrow> Event list \<Rightarrow> Episode \<Rightarrow> nat" where
  "acceptedMoves n [] s = 0"
| "acceptedMoves n (ev # evs) s =
     (case ev of Move key now \<Rightarrow> (if accepted s key then 1 else 0) | Timeout \<Rightarrow> 0)
     + (case step n s ev of Inl e \<Rightarrow> 0 | Inr s' \<Rightarrow> acceptedMoves n evs s')"

lemma sum_list_inc: "i < length xs \<Longrightarrow> sum_list (xs[i := xs ! i + 1]) = Suc (sum_list (xs :: nat list))"
proof (induction xs arbitrary: i)
  case Nil
  then show ?case by simp
next
  case (Cons a xs)
  then show ?case by (cases i) auto
qed

lemma heatmapSum_inc:
  "i < length h \<Longrightarrow> sum_list r = Suc (sum_list (h ! i))
    \<Longrightarrow> heatmapSum (h[i := r]) = Suc (heatmapSum h)"
  unfolding heatmapSum_def
proof (induction h arbitrary: i)
  case Nil
  then show ?case by simp
next
  case (Cons a h)
  then show ?case by (cases i) auto
qed

lemma incCell_wf:
  assumes w: "wf_grid n h" and p: "inGrid n (x, y)"
  shows "\<exists>h'. incCell h x y = Inr h' \<and> wf_grid n h' \<and> heatmapSum h' = heatmapSum h + 1"
proof -
  from cellAt_wf [OF w p] have c: "cellAt h x y = Inr (Some (h ! nat y ! nat x))" by simp
  from setCell_wf [OF w p, of "h ! nat y ! nat x + 1"] obtain h' where
    s: "setCell h x y (h ! nat y ! nat x + 1) = Inr h'" and w': "wf_grid n h'" by blast
  note d = setCell_InrD [OF s]
  from sum_list_inc [OF d(4)]
  have "sum_list ((h ! nat y)[nat x := h ! nat y ! nat x + 1]) = Suc (sum_list (h ! nat y))" .
  from heatmapSum_inc [OF d(2) this] d(5) have "heatmapSum h' = heatmapSum h + 1" by simp
  with c s w' show ?thesis by (simp add: incCell_def)
qed

lemma destination_inGrid: "interior n p \<Longrightarrow> inGrid n (destination p key)"
  by (cases key) (auto simp: destination_def interior_def inGrid_def)

lemma handleMove_inv:
  assumes inv: "episodeInv n s"
  shows "\<exists>s'. handleMove n now key s = Inr s' \<and> episodeInv n s' \<and> maze s' = maze s
     \<and> moveCount s' = moveCount s + (if accepted s key then 1 else 0)"
proof (cases "gameState s = Playing")
  case False
  with inv show ?thesis by (simp add: handleMove_def accepted_def)
next
  case pl: True
  let ?d = "destination (playerPos s) key"
  from inv have w: "wf_grid n (maze s)" and b: "opened (maze s) \<subseteq> {p. interior n p}"
    and pos: "playerPos s \<in> opened (maze s)" and wh: "wf_grid n (heatmap s)"
    by (simp_all add: episodeInv_def)
  from pos b have "interior n (playerPos s)" by blast
  from destination_inGrid [OF this] have dg: "inGrid n ?d" .
  from cellAt_opened [OF w dg] obtain c where
    c: "cellAt (maze s) (fst ?d) (snd ?d) = Inr (Some c)" and cw: "c = WALL \<longleftrightarrow> ?d \<notin> opened (maze s)"
    by blast
  show ?thesis
  proof (cases "c = WALL")
    case True
    with pl c inv show ?thesis
      by (simp add: handleMove_def Let_def accepted_def episodeInv_def)
  next
    case False
    with cw have dop: "?d \<in> opened (maze s)" by simp
    from incCell_wf [OF wh, of "fst ?d" "snd ?d"] dg obtain h' where
      h: "incCell (heatmap s) (fst ?d) (snd ?d) = Inr h'" and wh': "wf_grid n h'"
      and sm: "heatmapSum h' = heatmapSum (heatmap s) + 1" by auto
    from pl c False have acc: "accepted s key" by (simp add: accepted_def)
    from pl c False h have "\<exists>s'. handleMove n now key s = Inr s'
        \<and> maze s' = maze s \<and> playerPos s' = ?d \<and> heatmap s' = h'
        \<and> moveCount s' = moveCount s + 1 \<and> actualPath s' = actualPath s @ [?d]
        \<and> movementHistory s' = movementHistory s @ [directionKey key]"
      by (simp add: handleMove_def Let_def)
    then obtain s' where r: "handleMove n now key s = Inr s'"
      and f: "maze s' = maze s" "playerPos s' = ?d" "heatmap s' = h'"
        "moveCount s' = moveCount s + 1" "actualPath s' = actualPath s @ [?d]"
        "movementHistory s' = movementHistory s @ [directionKey key]"
      by blast
    from inv f w b dop wh' sm have "episodeInv n s'" by (simp add: episodeInv_def)
    with r f acc show ?thesis by simp
  qed
qed

lemma step_inv:
  assumes "episodeInv n s"
  shows "\<exists>s'. step n s ev = Inr s' \<and> episodeInv n s' \<and> maze s' = maze s
     \<and> moveCount s' = moveCount s
         + (case ev of Move key now \<Rightarrow> (if accepted s key then 1 else 0) | Timeout \<Rightarrow> 0)"
proof (cases ev)
  case (Move key now)
  with handleMove_inv [OF assms, of now key] show ?thesis by simp
next
  case Timeout
  with assms show ?thesis by (simp add: timeout_def episodeInv_def)
qed

lemma run_inv:
  "episodeInv n s \<Longrightarrow> \<exists>s'. run n evs s = Inr s' \<and> episodeInv n s' \<and> maze s' = maze s
     \<and> moveCount s' = moveCount s + acceptedMoves n evs s"
proof (induction evs arbitrary: s)
  case Nil
  then show ?case by simp
next
  case (Cons ev evs)
  from step_inv [OF Cons.prems, of ev] obtain s1 where
    s1: "step n s ev = Inr s1" "episodeInv n s1" "maze s1 = maze s"
      "moveCount s1 = moveCount s
         + (case ev of Move key now \<Rightarrow> (if accepted s key then 1 else 0) | Timeout \<Rightarrow> 0)"
    by blast
  from Cons.IH [OF s1(2)] obtain s' where
    "run n evs s1 = Inr s'" "episodeInv n s'" "maze s' = maze s1"
    "moveCount s' = moveCount s1 + acceptedMoves n evs s1"
    by blast
  with s1 show ?case by simp
qed

lemma generateMaze_border:
  assumes "shuffles rnd" and "3 \<le> n"
  shows "\<exists>g. generateMaze n rnd = Inr g \<and> wf_grid n g \<and> (1, 1) \<in> opened g
     \<and> opened g \<subseteq> {p. interior n p}"
proof -
  from generateMaze_carved [OF assms] obtain g S where
    g: "generateMaze n rnd = Inr g" "wf_grid n g" and o: "opened g = insert (int n - 2, int n - 2) S"
    and p: "perfect n S" and s: "(1, 1) \<in> S"
    by blast
  from p have "S \<subseteq> {p. interior n p}" by (auto simp: perfect_def mazeShape_def)
  moreover from assms(2) have "interior n (int n - 2, int n - 2)" by (simp add: interior_def)
  ultimately have "opened g \<subseteq> {p. interior n p}" using o by auto
  with g o s show ?thesis by auto
qed

lemma startGame_inv:
  assumes "shuffles rnd" and "3 \<le> n"
  shows "\<exists>g s0. generateMaze n rnd = Inr g \<and> startGame n rnd t0 = Inr s0 \<and> episodeInv n s0
     \<and> maze s0 = g \<and> moveCount s0 = 0 \<and> gameState s0 = Playing"
proof -
  from generateMaze_border [OF assms] obtain g where
    g: "generateMaze n rnd = Inr g" "wf_grid n g" "(1, 1) \<in> opened g"
      "opened g \<subseteq> {p. interior n p}" by blast
  from findOptimalPath_total [OF g(2)] obtain r where
    r: "findOptimalPath n g (1, 1) (int n - 2, int n - 2) = Inr r" by blast
  have "wf_grid n (replicate n (replicate n (0 :: nat)))"
    by (simp add: wf_grid_def list_all_length)
  moreover have "heatmapSum (replicate n (replicate n 0)) = 0"
    by (simp add: heatmapSum_def)
  ultimately show ?thesis using g r
    by (simp add: startGame_def episodeInv_def Let_def)
qed

text \<open>The heatmap with one more visit of the cell \<open>p\<close>, all other cells as they are.\<close>

definition oneMoreVisit :: "nat list list \<Rightarrow> Point \<Rightarrow> nat list list" where
  "oneMoreVisit h p =
     h[nat (snd p) := (h ! nat (snd p))[nat (fst p) := h ! nat (snd p) ! nat (fst p) + 1]]"

lemma handleMove_heatmap:
  assumes inv: "episodeInv n s"
  shows "\<exists>s'. handleMove n now key s = Inr s'
     \<and> heatmap s' = (if accepted s key
          then oneMoreVisit (heatmap s) (destination (playerPos s) key) else heatmap s)"
proof (cases "gameState s = Playing")
  case False
  then show ?thesis by (simp add: handleMove_def accepted_def)
next
  case pl: True
  let ?d = "destination (playerPos s) key"
  from inv have w: "wf_grid n (maze s)" and b: "opened (maze s) \<subseteq> {p. interior n p}"
    and pos: "playerPos s \<in> opened (maze s)" and wh: "wf_grid n (heatmap s)"
    by (simp_all add: episodeInv_def)
  from pos b have "interior n (playerPos s)" by blast
  from destination_inGrid [OF this] have dg: "inGrid n ?d" .
  from cellAt_wf [OF w dg] obtain c where c: "cellAt (maze s) (fst ?d) (snd ?d) = Inr (Some c)"
    by blast
  show ?thesis
  proof (cases "c = WALL")
    case True
    with pl c show ?thesis by (simp add: handleMove_def Let_def accepted_def)
  next
    case False
    from cellAt_wf [OF wh dg]
    have ch: "cellAt (heatmap s) (fst ?d) (snd ?d)
        = Inr (Some (heatmap s ! nat (snd ?d) ! nat (fst ?d)))" .
    from setCell_wf [OF wh, of "fst ?d" "snd ?d" "heatmap s ! nat (snd ?d) ! nat (fst ?d) + 1"] dg
    obtain h' where
      sc: "setCell (heatmap s) (fst ?d) (snd ?d) (heatmap s ! nat (snd ?d) ! nat (fst ?d) + 1)
        = Inr h'" by auto
    from setCell_InrD(5) [OF sc] have h': "h' = oneMoreVisit (heatmap s) ?d"
      by (simp add: oneMoreVisit_def)
    from ch sc have "incCell (heatmap s) (fst ?d) (snd ?d) = Inr h'" by (simp add: incCell_def)
    with pl c False h' show ?thesis by (simp add: handleMove_def Let_def accepted_def)
  qed
qed

text \<open>
  C3. In every episode the generator starts, after any sequence of moves and timeouts,
  the entries of the heatmap add up to the number of accepted moves, which is also the
  move count; and the next move, when it is accepted, adds one visit to the cell it
  enters and changes no other cell, and leaves the heatmap as it is when it is not.
\<close>

theorem heatmap_conservation:
  assumes "shuffles rnd" and "3 \<le> n"
  shows "\<exists>s0 s. startGame n rnd t0 = Inr s0 \<and> run n evs s0 = Inr s
     \<and> heatmapSum (heatmap s) = acceptedMoves n evs s0
     \<and> moveCount s = acceptedMoves n evs s0
     \<and> (\<forall>key now. \<exists>s'. handleMove n now key s = Inr s'
           \<and> heatmap s' = (if accepted s key
                then oneMoreVisit (heatmap s) (destination (playerPos s) key)
                else heatmap s))"
proof -
  from startGame_inv [OF assms, of t0] obtain s0 where
    s0: "startGame n rnd t0 = Inr s0" "episodeInv n s0" "moveCount s0 = 0" by blast
  from run_inv [OF s0(2), of evs] obtain s where
    s: "run n evs s0 = Inr s" "episodeInv n s"
      "moveCount s = moveCount s0 + acceptedMoves n evs s0"
    by blast
  from s(2) have "heatmapSum (heatmap s) = moveCount s" by (simp add: episodeInv_def)
  with s0 s handleMove_heatmap [OF s(2)] show ?thesis by auto
qed

subsection \<open>The shuffles a run draws\<close>





subsection \<open>A run on a grid of side 5\<close>

lemmas grid_eval = cellAt_def setCell_def jsGet_def WALL_def PATH_def PLAYER_def EXIT_def
  carveDirections_def

lemmas key_eval = posKey_def showInt_def showNat.simps digit_def

definition generatedGrid :: Grid where
  "generatedGrid =
     [[''#'', ''#'', ''#'', ''#'', ''#''],
      [''#'', ''P'', ''#'', '' '', ''#''],
      [''#'', '' '', ''#'', '' '', ''#''],
      [''#'', '' '', '' '', ''E'', ''#''],
      [''#'', ''#'', ''#'', ''#'', ''#'']]"

definition startedEpisode :: Episode where
  "startedEpisode =
     \<lparr> maze = generatedGrid, playerPos = (1, 1), gameState = Playing, startTime = 0,
       moveCount = 0, wallCollisions = 0, backtrackCount = 0, movementHistory = [],
       visitedCells = [''1,1''],
       movePatterns = \<lparr> up = 0, down = 0, left = 0, right = 0 \<rparr>,
       firstHalfMetrics = \<lparr> moves = 0, collisions = 0, time = 0 \<rparr>,
       heatmap = replicate 5 (replicate 5 0),
       optimalPath = [(1, 1), (1, 2), (1, 3), (2, 3), (3, 3)], actualPath = [(1, 1)],
       pathDeviation = 0 \<rparr>"

lemma shuffles_fixed: "shuffles (\<lambda>k. carveDirections)"
  by (simp add: shuffles_def carveDirections_def)

lemma generateMaze_5: "generateMaze 5 (\<lambda>k. carveDirections) = Inr generatedGrid"
  by (simp add: generateMaze_def generatedGrid_def grid_eval eval_nat_numeral)

lemma findOptimalPath_5: "findOptimalPath 5 generatedGrid (1, 1) (3, 3)
    = Inr [(1, 1), (1, 2), (1, 3), (2, 3), (3, 3)]"
  by (simp add: findOptimalPath_def generatedGrid_def directions_def grid_eval key_eval Let_def)

lemma startGame_5: "startGame 5 (\<lambda>k. carveDirections) 0 = Inr startedEpisode"
  by (simp add: startGame_def generateMaze_5 findOptimalPath_5 startedEpisode_def
      newSet_def setAdd_def Let_def)

lemmas move_eval = handleMove_def destination_def incCell_def timeout_def accepted_def
  newSet_def setAdd_def calculatePathDeviation_def Let_def

definition threeMoves :: "Event list" where
  "threeMoves = [Move ArrowDown 1000, Move ArrowLeft 1500, Move ArrowDown 2000,
     Move ArrowRight 3000, Timeout]"

definition afterThreeMoves :: Episode where
  "afterThreeMoves =
     \<lparr> maze = generatedGrid, playerPos = (2, 3), gameState = GameOver, startTime = 0,
       moveCount = 3, wallCollisions = 1, backtrackCount = 0,
       movementHistory = [''down'', ''down'', ''right''],
       visitedCells = [''1,1'', ''1,2'', ''1,3'', ''2,3''],
       movePatterns = \<lparr> up = 0, down = 2, left = 1, right = 1 \<rparr>,
       firstHalfMetrics = \<lparr> moves = 0, collisions = 0, time = 0 \<rparr>,
       heatmap = [[0, 0, 0, 0, 0], [0, 0, 0, 0, 0], [0, 1, 0, 0, 0], [0, 1, 1, 0, 0],
         [0, 0, 0, 0, 0]],
       optimalPath = [(1, 1), (1, 2), (1, 3), (2, 3), (3, 3)],
       actualPath = [(1, 1), (1, 2), (1, 3), (2, 3)],
       pathDeviation = 0 \<rparr>"

lemma run_threeMoves: "run 5 threeMoves startedEpisode = Inr afterThreeMoves"
  by code_simp

lemma accepted_threeMoves: "acceptedMoves 5 threeMoves startedEpisode = 3"
  by code_simp

theorem heatmap_conservation_witness:
  "shuffles (\<lambda>k. carveDirections) \<and> (3 :: nat) \<le> 5
   \<and> (\<exists>s. run 5 threeMoves startedEpisode = Inr s
        \<and> heatmapSum (heatmap s) = 3 \<and> moveCount s = 3)"
proof -
  have n: "(3 :: nat) \<le> 5" by simp
  from heatmap_conservation [OF shuffles_fixed n, of 0 threeMoves]
  have "\<exists>s. run 5 threeMoves startedEpisode = Inr s
      \<and> heatmapSum (heatmap s) = acceptedMoves 5 threeMoves startedEpisode
      \<and> moveCount s = acceptedMoves 5 threeMoves startedEpisode"
    by (auto simp: startGame_5)
  with shuffles_fixed show ?thesis by (simp add: accepted_threeMoves)
qed

subsection \<open>The border\<close>

text \<open>
  C10. In a generated maze of side \<open>n \<ge> 3\<close> every cell of the first and last row and
  column is a wall. Hence in every episode the player stays on rows and columns \<open>1\<close> to
  \<open>n - 2\<close>, and the destination of every move is a cell of the grid: the lookup of
  \<^verbatim>\<open>handleMove\<close> reads a defined cell.
\<close>

theorem border_walls_keep_moves_in_bounds:
  assumes "shuffles rnd" and "3 \<le> n"
  shows "\<exists>g s0 s. generateMaze n rnd = Inr g
     \<and> (\<forall>p. inGrid n p \<and> \<not> interior n p \<longrightarrow> cellAt g (fst p) (snd p) = Inr (Some WALL))
     \<and> startGame n rnd t0 = Inr s0 \<and> run n evs s0 = Inr s \<and> maze s = g
     \<and> interior n (playerPos s)
     \<and> (\<forall>key. inGrid n (destination (playerPos s) key)
          \<and> (\<exists>c. cellAt (maze s) (fst (destination (playerPos s) key))
                 (snd (destination (playerPos s) key)) = Inr (Some c)))"
proof -
  from startGame_inv [OF assms, of t0] obtain g s0 where
    g: "generateMaze n rnd = Inr g" and s0: "startGame n rnd t0 = Inr s0" "episodeInv n s0"
    and m0: "maze s0 = g" by blast
  from run_inv [OF s0(2), of evs] obtain s where
    s: "run n evs s0 = Inr s" "episodeInv n s" "maze s = maze s0" by blast
  from s(2) have w: "wf_grid n (maze s)" and b: "opened (maze s) \<subseteq> {p. interior n p}"
    and pos: "playerPos s \<in> opened (maze s)" by (simp_all add: episodeInv_def)
  have 1: "cellAt g (fst p) (snd p) = Inr (Some WALL)" if "inGrid n p" "\<not> interior n p" for p
  proof -
    from that b have "p \<notin> opened (maze s)" by blast
    with cellAt_opened [OF w that(1)] s(3) m0 show ?thesis by metis
  qed
  from pos b have 2: "interior n (playerPos s)" by blast
  have 3: "inGrid n (destination (playerPos s) key)
          \<and> (\<exists>c. cellAt (maze s) (fst (destination (playerPos s) key))
                 (snd (destination (playerPos s) key)) = Inr (Some c))" for key
    using destination_inGrid [OF 2, of key] cellAt_wf [OF w] by blast
  from g 1 s0(1) s(1,3) m0 2 3 show ?thesis by blast
qed

theorem border_walls_keep_moves_in_bounds_witness:
  "shuffles (\<lambda>k. carveDirections) \<and> (3 :: nat) \<le> 5
   \<and> (\<exists>s. run 5 threeMoves startedEpisode = Inr s \<and> maze s = generatedGrid
        \<and> (\<forall>p. inGrid 5 p \<and> \<not> interior 5 p
              \<longrightarrow> cellAt generatedGrid (fst p) (snd p) = Inr (Some WALL))
        \<and> interior 5 (playerPos s)
        \<and> (\<forall>key. inGrid 5 (destination (playerPos s) key)))"
proof -
  have n: "(3 :: nat) \<le> 5" by simp
  from border_walls_keep_moves_in_bounds [OF shuffles_fixed n, of 0 threeMoves]
  have "\<exists>s. run 5 threeMoves startedEpisode = Inr s \<and> maze s = generatedGrid
        \<and> (\<forall>p. inGrid 5 p \<and> \<not> interior 5 p
              \<longrightarrow> cellAt generatedGrid (fst p) (snd p) = Inr (Some WALL))
        \<and> interior 5 (playerPos s)
        \<and> (\<forall>key. inGrid 5 (destination (playerPos s) key))"
    by (auto simp: startGame_5 generateMaze_5)
  with shuffles_fixed show ?thesis by simp
qed

subsection \<open>The metrics of the "Next Game" button\<close>

text \<open>
  C4. The record of the "Next Game" button is built without any exception, but its
  \<^verbatim>\<open>actualPath\<close> is the recorded path with the exit cell appended, whether or not the
  player reached the exit: after a timeout that follows \<open>k\<close> accepted moves it has
  \<open>k + 2\<close> cells, not \<open>k + 1\<close>.
\<close>

theorem nextGameMetrics_appends_exit:
  assumes "shuffles rnd" and "3 \<le> n"
  shows "\<exists>s0 s. startGame n rnd t0 = Inr s0 \<and> run n (evs @ [Timeout]) s0 = Inr s
     \<and> gameState s = GameOver
     \<and> length (actualPath s) = acceptedMoves n (evs @ [Timeout]) s0 + 1
     \<and> mActualPath (nextGameMetrics n now s) = actualPath s @ [(int n - 2, int n - 2)]
     \<and> length (mActualPath (nextGameMetrics n now s)) = acceptedMoves n (evs @ [Timeout]) s0 + 2"
proof -
  from startGame_inv [OF assms, of t0] obtain s0 where
    s0: "startGame n rnd t0 = Inr s0" "episodeInv n s0" "moveCount s0 = 0"
      "gameState s0 = Playing" by blast
  from run_inv [OF s0(2), of "evs @ [Timeout]"] obtain s where
    s: "run n (evs @ [Timeout]) s0 = Inr s" "episodeInv n s"
      "moveCount s = moveCount s0 + acceptedMoves n (evs @ [Timeout]) s0" by blast
  have over: "gameState s' = GameOver"
    if "run n (evs' @ [Timeout]) s1 = Inr s'" "gameState s1 \<noteq> Ready" for evs' s1 s'
    using that
  proof (induction evs' arbitrary: s1)
    case Nil
    then show ?case by (cases "gameState s1") (auto simp: timeout_def)
  next
    case (Cons ev evs')
    from Cons.prems(1) obtain s2 where s2: "step n s1 ev = Inr s2"
      and r: "run n (evs' @ [Timeout]) s2 = Inr s'"
      by (auto split: sum.splits)
    from s2 Cons.prems(2) have "gameState s2 \<noteq> Ready"
      by (cases ev) (auto simp: handleMove_def timeout_def Let_def split: sum.splits if_splits)
    from Cons.IH [OF r this] show ?case .
  qed
  from s0(4) have "gameState s0 \<noteq> Ready" by simp
  from over [OF s(1) this] have g: "gameState s = GameOver" .
  from s(2,3) s0(3) have l: "length (actualPath s) = acceptedMoves n (evs @ [Timeout]) s0 + 1"
    by (simp add: episodeInv_def)
  have m: "mActualPath (nextGameMetrics n now s) = actualPath s @ [(int n - 2, int n - 2)]"
    by (simp add: nextGameMetrics_def Let_def)
  from s0(1) s(1) g l m show ?thesis by auto
qed

theorem nextGameMetrics_appends_exit_witness:
  "shuffles (\<lambda>k. carveDirections) \<and> (3 :: nat) \<le> 5
   \<and> run 5 threeMoves startedEpisode = Inr afterThreeMoves
   \<and> acceptedMoves 5 threeMoves startedEpisode = 3
   \<and> actualPath afterThreeMoves = [(1, 1), (1, 2), (1, 3), (2, 3)]
   \<and> mActualPath (nextGameMetrics 5 60000 afterThreeMoves)
        = [(1, 1), (1, 2), (1, 3), (2, 3), (3, 3)]
   \<and> length (mActualPath (nextGameMetrics 5 60000 afterThreeMoves)) = 5"
proof -
  have n: "(3 :: nat) \<le> 5" by simp
  have t: "threeMoves = [Move ArrowDown 1000, Move ArrowLeft 1500, Move ArrowDown 2000,
     Move ArrowRight 3000] @ [Timeout]" by (simp add: threeMoves_def)
  from nextGameMetrics_appends_exit [OF shuffles_fixed n, of 0
      "[Move ArrowDown 1000, Move ArrowLeft 1500, Move ArrowDown 2000, Move ArrowRight 3000]" 60000]
  have "mActualPath (nextGameMetrics 5 60000 afterThreeMoves)
      = actualPath afterThreeMoves @ [(int 5 - 2, int 5 - 2)]
    \<and> length (mActualPath (nextGameMetrics 5 60000 afterThreeMoves)) = 3 + 2"
    unfolding t [symmetric] by (simp add: startGame_5 run_threeMoves accepted_threeMoves)
  then show ?thesis
    using shuffles_fixed run_threeMoves accepted_threeMoves by (simp add: afterThreeMoves_def)
qed

text \<open>
  C5. The guards against a zero divisor are written at some call sites only. Both halves
  of the two-phase split of the "Next Game" record are guarded, but its path efficiency
  and its average time per move are not: after a timeout with no accepted move the
  efficiency is the length of the optimal path divided by zero, which is \<^verbatim>\<open>Infinity\<close>
  (or \<^verbatim>\<open>NaN\<close>), not 0.
\<close>

theorem pathEfficiency_unguarded:
  assumes "shuffles rnd" and "3 \<le> n"
  shows "\<exists>s0 s. startGame n rnd t0 = Inr s0 \<and> run n [Timeout] s0 = Inr s
     \<and> movementHistory s = []
     \<and> mPathEfficiency (nextGameMetrics n now s) \<in> {PosInfinity, NaN}
     \<and> mAverageTimePerMove (nextGameMetrics n now s) \<in> {PosInfinity, NegInfinity, NaN}
     \<and> firstHalf (mPerformanceOverTime (nextGameMetrics n now s))
          = \<lparr> speed = Num 0, accuracy = Num 0 \<rparr>
     \<and> secondHalf (mPerformanceOverTime (nextGameMetrics n now s))
          = \<lparr> speed = Num 0, accuracy = Num 0 \<rparr>"
proof -
  from startGame_inv [OF assms, of t0] obtain g s0 where
    g: "generateMaze n rnd = Inr g" and s0: "startGame n rnd t0 = Inr s0" by blast
  from s0 g obtain r where s0': "s0 =
     \<lparr> maze = g, playerPos = (1, 1), gameState = Playing, startTime = t0,
       moveCount = 0, wallCollisions = 0, backtrackCount = 0, movementHistory = [],
       visitedCells = newSet [''1,1''],
       movePatterns = \<lparr> up = 0, down = 0, left = 0, right = 0 \<rparr>,
       firstHalfMetrics = \<lparr> moves = 0, collisions = 0, time = 0 \<rparr>,
       heatmap = replicate n (replicate n 0), optimalPath = r, actualPath = [(1, 1)],
       pathDeviation = 0 \<rparr>"
    by (auto simp: startGame_def Let_def split: sum.splits)
  have "run n [Timeout] s0 = Inr (timeout s0)" by simp
  moreover have "movementHistory (timeout s0) = []" by (simp add: s0' timeout_def)
  moreover have "mPathEfficiency (nextGameMetrics n now (timeout s0)) \<in> {PosInfinity, NaN}"
    by (simp add: s0' timeout_def nextGameMetrics_def jsDiv_def)
  moreover have "mAverageTimePerMove (nextGameMetrics n now (timeout s0))
      \<in> {PosInfinity, NegInfinity, NaN}"
    by (simp add: s0' timeout_def nextGameMetrics_def jsDiv_def)
  moreover have "firstHalf (mPerformanceOverTime (nextGameMetrics n now (timeout s0)))
          = \<lparr> speed = Num 0, accuracy = Num 0 \<rparr>"
    by (simp add: s0' timeout_def nextGameMetrics_def phase1_def)
  moreover have "secondHalf (mPerformanceOverTime (nextGameMetrics n now (timeout s0)))
          = \<lparr> speed = Num 0, accuracy = Num 0 \<rparr>"
    by (simp add: s0' timeout_def nextGameMetrics_def)
  ultimately show ?thesis using s0 by blast
qed

theorem pathEfficiency_unguarded_witness:
  "shuffles (\<lambda>k. carveDirections) \<and> (3 :: nat) \<le> 5
   \<and> run 5 [Timeout] startedEpisode = Inr (timeout startedEpisode)
   \<and> mPathEfficiency (nextGameMetrics 5 60000 (timeout startedEpisode)) = PosInfinity
   \<and> mAverageTimePerMove (nextGameMetrics 5 60000 (timeout startedEpisode)) = PosInfinity"
proof -
  have n: "(3 :: nat) \<le> 5" by simp
  from pathEfficiency_unguarded [OF shuffles_fixed n, of 0 60000]
  have "mPathEfficiency (nextGameMetrics 5 60000 (timeout startedEpisode)) \<in> {PosInfinity, NaN}"
    by (simp add: startGame_5)
  moreover have "mPathEfficiency (nextGameMetrics 5 60000 (timeout startedEpisode)) \<noteq> NaN"
    by (simp add: nextGameMetrics_def timeout_def startedEpisode_def jsDiv_def)
  moreover have "mAverageTimePerMove (nextGameMetrics 5 60000 (timeout startedEpisode)) = PosInfinity"
    by (simp add: nextGameMetrics_def timeout_def startedEpisode_def jsDiv_def)
  ultimately show ?thesis using shuffles_fixed by simp
qed

subsection \<open>The side length and the random source\<close>

text \<open>
  The source has no configuration. The side length is the constant \<open>MAZE_SIZE\<close>, which is
  odd and at least 5, and \<^verbatim>\<open>generateMaze\<close> takes no argument.
\<close>

lemma MAZE_SIZE_odd: "odd MAZE_SIZE \<and> 5 \<le> MAZE_SIZE"
  by (simp add: MAZE_SIZE_def)




subsection \<open>Correctness of the finder\<close>

text \<open>
  A route is a walk over open cells, each cell next to its predecessor. \<open>ball g s k\<close>
  is the set of cells that a route from \<open>s\<close> reaches in at most \<open>k\<close> steps.
\<close>

definition route :: "Grid \<Rightarrow> Point \<Rightarrow> Point \<Rightarrow> Point list \<Rightarrow> bool" where
  "route g a b ps =
     (ps \<noteq> [] \<and> hd ps = a \<and> last ps = b \<and> set ps \<subseteq> opened g \<and> successively adjacent ps)"

fun ball :: "Grid \<Rightarrow> Point \<Rightarrow> nat \<Rightarrow> Point set" where
  "ball g s 0 = {s}"
| "ball g s (Suc k) = ball g s k \<union> {q \<in> opened g. \<exists>p\<in>ball g s k. adjacent p q}"

lemma ball_mono: "j \<le> k \<Longrightarrow> ball g s j \<subseteq> ball g s k"
proof (induction k)
  case 0
  then show ?case by simp
next
  case (Suc k)
  then show ?case by (cases "j = Suc k") auto
qed

lemma walk_ball:
  "ps \<noteq> [] \<Longrightarrow> hd ps = s \<Longrightarrow> set ps \<subseteq> opened g \<Longrightarrow> successively adjacent ps
    \<Longrightarrow> last ps \<in> ball g s (length ps - 1)"
proof (induction ps rule: rev_nonempty_induct)
  case (single x)
  then show ?case by simp
next
  case (snoc x xs)
  from snoc.prems snoc.hyps have "hd xs = s" "set xs \<subseteq> opened g" "successively adjacent xs"
    and a: "adjacent (last xs) x" and o: "x \<in> opened g"
    by (auto simp: successively_append_iff)
  from snoc.IH [OF this(1,2,3)] have "last xs \<in> ball g s (length xs - 1)" .
  with a o have "x \<in> ball g s (Suc (length xs - 1))" by auto
  with snoc.hyps show ?case by simp
qed

lemma route_ball: "route g s e ps \<Longrightarrow> e \<in> ball g s (length ps - 1)"
  using walk_ball [of ps s g] by (auto simp: route_def)

lemma route_snoc:
  "route g s p path \<Longrightarrow> adjacent p q \<Longrightarrow> q \<in> opened g \<Longrightarrow> route g s q (path @ [q])"
  by (auto simp: route_def successively_append_iff)

lemma adjacent_directions:
  "adjacent p q \<longleftrightarrow> (\<exists>d\<in>set directions. q = (fst p + fst d, snd p + snd d))"
  by (cases p; cases q) (auto simp: adjacent_def directions_def)

text \<open>
  The finder takes the grid as an argument and bounds its search by the constant
  \<open>MAZE_SIZE\<close> (here \<open>n\<close>), not by the sides of that grid. A neighbour within the bound
  whose row the grid lacks makes \<^verbatim>\<open>maze[newY][newX]\<close> throw, and one whose row is too
  short reads \<^verbatim>\<open>undefined\<close>, which is no wall. \<open>readsInside n g\<close> says that neither
  happens on \<open>g\<close>: every open cell lies within the bound, and every neighbour of an open
  cell within the bound is a cell of the grid. It holds of every grid of side \<open>n\<close>, and
  of every smaller grid whose open cells are all off the border.
\<close>

definition readsInside :: "nat \<Rightarrow> Grid \<Rightarrow> bool" where
  "readsInside n g =
     (\<forall>p\<in>opened g. inGrid n p
        \<and> (\<forall>d\<in>set directions. inGrid n (fst p + fst d, snd p + snd d)
              \<longrightarrow> (\<exists>c. cellAt g (fst p + fst d) (snd p + snd d) = Inr (Some c))))"

lemma readsInside_wf:
  assumes "wf_grid n g"
  shows "readsInside n g"
  unfolding readsInside_def
proof (intro ballI conjI impI)
  fix p assume "p \<in> opened g"
  with isOpen_inGrid [OF assms, of p] show "inGrid n p" by (simp add: opened_def)
next
  fix p d assume "inGrid n (fst p + fst d, snd p + snd d)"
  from cellAt_wf [OF assms this]
  show "\<exists>c. cellAt g (fst p + fst d) (snd p + snd d) = Inr (Some c)" by simp
qed

lemma readsInside_walled:
  assumes wf: "wf_grid m g" and le: "m \<le> n" and b: "opened g \<subseteq> {p. interior m p}"
  shows "readsInside n g"
  unfolding readsInside_def
proof (intro ballI conjI impI)
  fix p assume "p \<in> opened g"
  with b have "interior m p" by blast
  with le show "inGrid n p" by (auto simp: interior_def inGrid_def)
next
  fix p d assume "p \<in> opened g" and d: "d \<in> set directions"
  with b have "interior m p" by blast
  with d have "inGrid m (fst p + fst d, snd p + snd d)"
    by (auto simp: interior_def inGrid_def directions_def)
  from cellAt_wf [OF wf this]
  show "\<exists>c. cellAt g (fst p + fst d) (snd p + snd d) = Inr (Some c)" by simp
qed

lemma expand_Cons:
  assumes "readsInside n g" and "p \<in> opened g" and "d \<in> set directions"
  shows "expand n g p path (d # ds) (queue, visited)
    = (let q = (fst p + fst d, snd p + snd d) in
       if q \<in> opened g \<and> posKey q \<notin> visited
       then expand n g p path ds (queue @ [(q, path @ [q])], insert (posKey q) visited)
       else expand n g p path ds (queue, visited))"
proof -
  let ?q = "(fst p + fst d, snd p + snd d)"
  show ?thesis
  proof (cases "inGrid n ?q")
    case True
    with assms obtain c where c: "cellAt g (fst p + fst d) (snd p + snd d) = Inr (Some c)"
      unfolding readsInside_def by blast
    then have "c = WALL \<longleftrightarrow> ?q \<notin> opened g" by (simp add: opened_def isOpen_def)
    with True c show ?thesis by (simp add: Let_def inGrid_def)
  next
    case False
    with assms(1) have "?q \<notin> opened g" unfolding readsInside_def by blast
    with False show ?thesis by (auto simp: Let_def inGrid_def)
  qed
qed

lemma expand_spec:
  assumes rs: "readsInside n g" and po: "p \<in> opened g"
  shows "set ds \<subseteq> set directions
    \<Longrightarrow> \<exists>N. expand n g p path ds (queue, visited)
        = Inr (queue @ N, visited \<union> posKey ` fst ` set N)
     \<and> (\<forall>(q, pth)\<in>set N. pth = path @ [q] \<and> q \<in> opened g \<and> posKey q \<notin> visited
          \<and> (\<exists>d\<in>set ds. q = (fst p + fst d, snd p + snd d)))
     \<and> (\<forall>d\<in>set ds. (fst p + fst d, snd p + snd d) \<in> opened g
          \<longrightarrow> posKey (fst p + fst d, snd p + snd d) \<in> visited \<union> posKey ` fst ` set N)"
proof (induction ds arbitrary: queue visited)
  case Nil
  show ?case by (rule exI [of _ "[]"]) simp
next
  case (Cons d ds)
  from Cons.prems have dd: "d \<in> set directions" and sub: "set ds \<subseteq> set directions" by simp_all
  note step = expand_Cons [OF rs po dd]
  let ?q = "(fst p + fst d, snd p + snd d)"
  show ?case
  proof (cases "?q \<in> opened g \<and> posKey ?q \<notin> visited")
    case True
    from Cons.IH [OF sub, of "queue @ [(?q, path @ [?q])]" "insert (posKey ?q) visited"]
    obtain N where
      e: "expand n g p path ds (queue @ [(?q, path @ [?q])], insert (posKey ?q) visited)
        = Inr ((queue @ [(?q, path @ [?q])]) @ N, insert (posKey ?q) visited \<union> posKey ` fst ` set N)"
      and i: "\<forall>(q, pth)\<in>set N. pth = path @ [q] \<and> q \<in> opened g
          \<and> posKey q \<notin> insert (posKey ?q) visited
          \<and> (\<exists>d\<in>set ds. q = (fst p + fst d, snd p + snd d))"
      and c: "\<forall>d\<in>set ds. (fst p + fst d, snd p + snd d) \<in> opened g
          \<longrightarrow> posKey (fst p + fst d, snd p + snd d)
              \<in> insert (posKey ?q) visited \<union> posKey ` fst ` set N"
      by blast
    let ?N = "(?q, path @ [?q]) # N"
    have "expand n g p path (d # ds) (queue, visited)
        = Inr (queue @ ?N, visited \<union> posKey ` fst ` set ?N)"
      using True e by (subst step) (simp add: Let_def)
    moreover have "\<forall>(q, pth)\<in>set ?N. pth = path @ [q] \<and> q \<in> opened g \<and> posKey q \<notin> visited
          \<and> (\<exists>d\<in>set (d # ds). q = (fst p + fst d, snd p + snd d))"
      using True i by auto
    moreover have "\<forall>d\<in>set (d # ds). (fst p + fst d, snd p + snd d) \<in> opened g
          \<longrightarrow> posKey (fst p + fst d, snd p + snd d) \<in> visited \<union> posKey ` fst ` set ?N"
      using c by auto
    ultimately show ?thesis by blast
  next
    case False
    from Cons.IH [OF sub, of queue visited] obtain N where
      e: "expand n g p path ds (queue, visited) = Inr (queue @ N, visited \<union> posKey ` fst ` set N)"
      and i: "\<forall>(q, pth)\<in>set N. pth = path @ [q] \<and> q \<in> opened g \<and> posKey q \<notin> visited
          \<and> (\<exists>d\<in>set ds. q = (fst p + fst d, snd p + snd d))"
      and c: "\<forall>d\<in>set ds. (fst p + fst d, snd p + snd d) \<in> opened g
          \<longrightarrow> posKey (fst p + fst d, snd p + snd d) \<in> visited \<union> posKey ` fst ` set N"
      by blast
    have "expand n g p path (d # ds) (queue, visited)
        = Inr (queue @ N, visited \<union> posKey ` fst ` set N)"
      using False e by (subst step) (auto simp: Let_def)
    moreover have "\<forall>(q, pth)\<in>set N. pth = path @ [q] \<and> q \<in> opened g \<and> posKey q \<notin> visited
          \<and> (\<exists>d\<in>set (d # ds). q = (fst p + fst d, snd p + snd d))"
      using i by auto
    moreover have "\<forall>d\<in>set (d # ds). (fst p + fst d, snd p + snd d) \<in> opened g
          \<longrightarrow> posKey (fst p + fst d, snd p + snd d) \<in> visited \<union> posKey ` fst ` set N"
      using c False by auto
    ultimately show ?thesis by blast
  qed
qed

text \<open>
  The invariant of the \<^verbatim>\<open>while\<close> loop. The queue is \<open>A @ B\<close>: the items of \<open>A\<close> carry
  paths of \<open>k + 1\<close> cells and those of \<open>B\<close> paths of \<open>k + 2\<close> cells; every path is a
  route from the start to its item and no shorter route reaches the item. The cells
  within \<open>k\<close> steps are all visited, and each of them either waits in \<open>A\<close> or has all
  its open neighbours visited. A visited cell outside \<open>B\<close> lies within \<open>k\<close> steps, and
  the end cell, once visited, is still in the queue.
\<close>

definition bfsInv :: "Grid \<Rightarrow> Point \<Rightarrow> Point \<Rightarrow> nat \<Rightarrow> QueueItem list \<Rightarrow> QueueItem list
    \<Rightarrow> string set \<Rightarrow> bool" where
  "bfsInv g s e k A B visited =
     ((\<forall>x\<in>set (A @ B). route g s (fst x) (snd x) \<and> posKey (fst x) \<in> visited
          \<and> (\<forall>j. Suc j < length (snd x) \<longrightarrow> fst x \<notin> ball g s j))
      \<and> (\<forall>x\<in>set A. length (snd x) = Suc k)
      \<and> (\<forall>x\<in>set B. length (snd x) = Suc (Suc k))
      \<and> (\<forall>p\<in>ball g s k. posKey p \<in> visited)
      \<and> (\<forall>p\<in>ball g s k. p \<in> fst ` set A
            \<or> (\<forall>q\<in>opened g. adjacent p q \<longrightarrow> posKey q \<in> visited))
      \<and> (\<forall>p. posKey p \<in> visited \<longrightarrow> p \<in> ball g s k \<or> p \<in> fst ` set B)
      \<and> (\<forall>p. posKey p \<in> visited \<longrightarrow> p \<in> fst ` set (A @ B) \<or> p \<noteq> e))"

lemma bfsInvD:
  assumes "bfsInv g s e k A B visited"
  shows "\<And>x. x \<in> set A \<union> set B \<Longrightarrow> route g s (fst x) (snd x)"
    and "\<And>x. x \<in> set A \<union> set B \<Longrightarrow> posKey (fst x) \<in> visited"
    and "\<And>x j. x \<in> set A \<union> set B \<Longrightarrow> Suc j < length (snd x) \<Longrightarrow> fst x \<notin> ball g s j"
    and "\<And>x. x \<in> set A \<Longrightarrow> length (snd x) = Suc k"
    and "\<And>x. x \<in> set B \<Longrightarrow> length (snd x) = Suc (Suc k)"
    and "\<And>p. p \<in> ball g s k \<Longrightarrow> posKey p \<in> visited"
    and "\<And>p q. p \<in> ball g s k \<Longrightarrow> p \<notin> fst ` set A \<Longrightarrow> q \<in> opened g \<Longrightarrow> adjacent p q
          \<Longrightarrow> posKey q \<in> visited"
    and "\<And>p. posKey p \<in> visited \<Longrightarrow> p \<notin> ball g s k \<Longrightarrow> p \<in> fst ` set B"
    and "\<And>p. posKey p \<in> visited \<Longrightarrow> p \<notin> fst ` set A \<Longrightarrow> p \<notin> fst ` set B \<Longrightarrow> p \<noteq> e"
proof -
  from assms have a: "\<forall>x\<in>set (A @ B). route g s (fst x) (snd x) \<and> posKey (fst x) \<in> visited
          \<and> (\<forall>j. Suc j < length (snd x) \<longrightarrow> fst x \<notin> ball g s j)"
    and b: "\<forall>x\<in>set A. length (snd x) = Suc k"
    and c: "\<forall>x\<in>set B. length (snd x) = Suc (Suc k)"
    and d: "\<forall>p\<in>ball g s k. posKey p \<in> visited"
    and e: "\<forall>p\<in>ball g s k. p \<in> fst ` set A
            \<or> (\<forall>q\<in>opened g. adjacent p q \<longrightarrow> posKey q \<in> visited)"
    and f: "\<forall>p. posKey p \<in> visited \<longrightarrow> p \<in> ball g s k \<or> p \<in> fst ` set B"
    and h: "\<forall>p. posKey p \<in> visited \<longrightarrow> p \<in> fst ` set (A @ B) \<or> p \<noteq> e"
    unfolding bfsInv_def by simp_all
  show "\<And>x. x \<in> set A \<union> set B \<Longrightarrow> route g s (fst x) (snd x)" using a by simp
  show "\<And>x. x \<in> set A \<union> set B \<Longrightarrow> posKey (fst x) \<in> visited" using a by simp
  show "\<And>x j. x \<in> set A \<union> set B \<Longrightarrow> Suc j < length (snd x) \<Longrightarrow> fst x \<notin> ball g s j"
    using a by simp
  show "\<And>x. x \<in> set A \<Longrightarrow> length (snd x) = Suc k" using b by simp
  show "\<And>x. x \<in> set B \<Longrightarrow> length (snd x) = Suc (Suc k)" using c by simp
  show "\<And>p. p \<in> ball g s k \<Longrightarrow> posKey p \<in> visited" using d by simp
  show "\<And>p q. p \<in> ball g s k \<Longrightarrow> p \<notin> fst ` set A \<Longrightarrow> q \<in> opened g \<Longrightarrow> adjacent p q
          \<Longrightarrow> posKey q \<in> visited" using e by blast
  show "\<And>p. posKey p \<in> visited \<Longrightarrow> p \<notin> ball g s k \<Longrightarrow> p \<in> fst ` set B" using f by blast
  show "p \<noteq> e" if "posKey p \<in> visited" "p \<notin> fst ` set A" "p \<notin> fst ` set B" for p
  proof -
    from h that(1) have "p \<in> fst ` set (A @ B) \<or> p \<noteq> e" by blast
    moreover from that(2,3) have "p \<notin> fst ` set (A @ B)" by (simp add: image_Un)
    ultimately show ?thesis by blast
  qed
qed

lemma bfsInvI:
  assumes "\<And>x. x \<in> set A \<union> set B \<Longrightarrow> route g s (fst x) (snd x)"
    and "\<And>x. x \<in> set A \<union> set B \<Longrightarrow> posKey (fst x) \<in> visited"
    and "\<And>x j. x \<in> set A \<union> set B \<Longrightarrow> Suc j < length (snd x) \<Longrightarrow> fst x \<notin> ball g s j"
    and "\<And>x. x \<in> set A \<Longrightarrow> length (snd x) = Suc k"
    and "\<And>x. x \<in> set B \<Longrightarrow> length (snd x) = Suc (Suc k)"
    and "\<And>p. p \<in> ball g s k \<Longrightarrow> posKey p \<in> visited"
    and "\<And>p q. p \<in> ball g s k \<Longrightarrow> p \<notin> fst ` set A \<Longrightarrow> q \<in> opened g \<Longrightarrow> adjacent p q
          \<Longrightarrow> posKey q \<in> visited"
    and "\<And>p. posKey p \<in> visited \<Longrightarrow> p \<notin> ball g s k \<Longrightarrow> p \<in> fst ` set B"
    and "\<And>p. posKey p \<in> visited \<Longrightarrow> p \<notin> fst ` set A \<Longrightarrow> p \<notin> fst ` set B \<Longrightarrow> p \<noteq> e"
  shows "bfsInv g s e k A B visited"
proof -
  have a: "\<forall>x\<in>set (A @ B). route g s (fst x) (snd x) \<and> posKey (fst x) \<in> visited
          \<and> (\<forall>j. Suc j < length (snd x) \<longrightarrow> fst x \<notin> ball g s j)"
    using assms(1,2,3) by simp
  have b: "\<forall>x\<in>set A. length (snd x) = Suc k" using assms(4) by simp
  have c: "\<forall>x\<in>set B. length (snd x) = Suc (Suc k)" using assms(5) by simp
  have d: "\<forall>p\<in>ball g s k. posKey p \<in> visited" using assms(6) by simp
  have e: "\<forall>p\<in>ball g s k. p \<in> fst ` set A
            \<or> (\<forall>q\<in>opened g. adjacent p q \<longrightarrow> posKey q \<in> visited)"
    using assms(7) by blast
  have f: "\<forall>p. posKey p \<in> visited \<longrightarrow> p \<in> ball g s k \<or> p \<in> fst ` set B"
    using assms(8) by blast
  have h: "\<forall>p. posKey p \<in> visited \<longrightarrow> p \<in> fst ` set (A @ B) \<or> p \<noteq> e"
  proof (intro allI impI)
    fix p assume v: "posKey p \<in> visited"
    show "p \<in> fst ` set (A @ B) \<or> p \<noteq> e"
    proof (cases "p \<in> fst ` set A \<or> p \<in> fst ` set B")
      case True
      then show ?thesis by (simp add: image_Un)
    next
      case False
      with assms(9) [OF v] show ?thesis by blast
    qed
  qed
  from a b c d e f h show ?thesis unfolding bfsInv_def by (intro conjI)
qed

lemma bfsInv_init:
  assumes "s \<in> opened g"
  shows "bfsInv g s e 0 [(s, [s])] [] {posKey s}"
  using assms by (intro bfsInvI) (simp_all add: route_def)

lemma bfsInv_next_level:
  assumes inv: "bfsInv g s e k [] B visited"
  shows "bfsInv g s e (Suc k) B [] visited"
proof -
  note d = bfsInvD [OF inv]
  have vis: "posKey p \<in> visited" if "p \<in> ball g s (Suc k)" for p
  proof (cases "p \<in> ball g s k")
    case True
    then show ?thesis by (rule d(6))
  next
    case False
    with that obtain p' where "p \<in> opened g" "p' \<in> ball g s k" "adjacent p' p" by auto
    from d(7) [OF this(2) _ this(1) this(3)] show ?thesis by simp
  qed
  have inB: "p \<in> ball g s (Suc k)" if "p \<in> fst ` set B" for p
  proof -
    from that obtain x where x: "x \<in> set B" "p = fst x" by blast
    from d(1) [of x] d(5) [OF x(1)] x have "route g s p (snd x)" "length (snd x) = Suc (Suc k)"
      by simp_all
    from route_ball [OF this(1)] this(2) show ?thesis by simp
  qed
  show ?thesis
  proof (rule bfsInvI)
    fix x assume "x \<in> set B \<union> set []"
    then have x: "x \<in> set [] \<union> set B" by simp
    from d(1) [OF x] show "route g s (fst x) (snd x)" .
    from d(2) [OF x] show "posKey (fst x) \<in> visited" .
    fix j assume "Suc j < length (snd x)"
    from d(3) [OF x this] show "fst x \<notin> ball g s j" .
  next
    fix x assume "x \<in> set B"
    from d(5) [OF this] show "length (snd x) = Suc (Suc k)" .
  next
    fix x :: QueueItem assume "x \<in> set []"
    then show "length (snd x) = Suc (Suc (Suc k))" by simp
  next
    fix p assume "p \<in> ball g s (Suc k)"
    then show "posKey p \<in> visited" by (rule vis)
  next
    fix p q assume p: "p \<in> ball g s (Suc k)" "p \<notin> fst ` set B" "q \<in> opened g" "adjacent p q"
    from vis [OF p(1)] have "posKey p \<in> visited" .
    with d(8) [OF this] p(2) have "p \<in> ball g s k" by blast
    from d(7) [OF this _ p(3,4)] show "posKey q \<in> visited" by simp
  next
    fix p assume p: "posKey p \<in> visited" "p \<notin> ball g s (Suc k)"
    have "p \<in> ball g s (Suc k)"
    proof (cases "p \<in> ball g s k")
      case True
      then show ?thesis by simp
    next
      case False
      from inB [OF d(8) [OF p(1) False]] show ?thesis .
    qed
    with p(2) show "p \<in> fst ` set []" by simp
  next
    fix p assume "posKey p \<in> visited" "p \<notin> fst ` set B" "p \<notin> fst ` set []"
    from d(9) [OF this(1) _ this(2)] show "p \<noteq> e" by simp
  qed
qed

lemma bfsInv_empty:
  assumes inv: "bfsInv g s e k [] [] visited"
  shows "\<not> route g s e ps"
proof
  assume r: "route g s e ps"
  note d = bfsInvD [OF inv]
  have "ball g s (k + m) \<subseteq> ball g s k" for m
  proof (induction m)
    case 0
    show ?case by simp
  next
    case (Suc m)
    have "q \<in> ball g s k" if "q \<in> ball g s (Suc (k + m))" for q
    proof (cases "q \<in> ball g s (k + m)")
      case True
      with Suc show ?thesis by blast
    next
      case False
      with that obtain p where q: "q \<in> opened g" and "p \<in> ball g s (k + m)" and a: "adjacent p q"
        by auto
      with Suc have "p \<in> ball g s k" by blast
      from d(7) [OF this _ q a] have v: "posKey q \<in> visited" by simp
      show ?thesis
      proof (rule ccontr)
        assume "q \<notin> ball g s k"
        from d(8) [OF v this] show False by simp
      qed
    qed
    then show ?case by auto
  qed
  from this [of "length ps - 1"] ball_mono [of "length ps - 1" "k + (length ps - 1)" g s]
    route_ball [OF r]
  have "e \<in> ball g s k" by auto
  from d(9) [OF d(6) [OF this]] show False by simp
qed

lemma bfsInv_found:
  assumes inv: "bfsInv g s e k A B visited" and x: "(e, path) \<in> set A \<union> set B"
  shows "route g s e path \<and> (\<forall>ps. route g s e ps \<longrightarrow> length path \<le> length ps)"
proof -
  note d = bfsInvD [OF inv]
  from d(1) [OF x] have r: "route g s e path" by simp
  have "length path \<le> length ps" if p: "route g s e ps" for ps
  proof (rule ccontr)
    assume "\<not> length path \<le> length ps"
    moreover from p have "ps \<noteq> []" by (simp add: route_def)
    ultimately have "Suc (length ps - 1) < length path" by (cases ps) auto
    from d(3) [OF x] this route_ball [OF p] show False by simp
  qed
  with r show ?thesis by blast
qed

lemma route_end: "route g a b ps \<Longrightarrow> b \<in> opened g"
  using last_in_set [of ps] by (auto simp: route_def)

lemma bfsInv_step:
  assumes rs: "readsInside n g" and inv: "bfsInv g s e k ((p, path) # A) B visited"
    and pe: "p \<noteq> e"
    and ex: "expand n g p path directions (A @ B, visited) = Inr (queue', visited')"
  shows "\<exists>B'. queue' = A @ B' \<and> bfsInv g s e k A B' visited'"
proof -
  note d = bfsInvD [OF inv]
  have lp: "length path = Suc k" using d(4) [of "(p, path)"] by simp
  have rp: "route g s p path" using d(1) [of "(p, path)"] by simp
  then have po: "p \<in> opened g" by (rule route_end)
  from expand_spec [OF rs po subset_refl, of path "A @ B" visited] ex obtain N where
    q': "queue' = (A @ B) @ N" and v': "visited' = visited \<union> posKey ` fst ` set N"
    and items: "\<forall>(q, pth)\<in>set N. pth = path @ [q] \<and> q \<in> opened g \<and> posKey q \<notin> visited
          \<and> (\<exists>d\<in>set directions. q = (fst p + fst d, snd p + snd d))"
    and nb: "\<forall>d\<in>set directions. (fst p + fst d, snd p + snd d) \<in> opened g
          \<longrightarrow> posKey (fst p + fst d, snd p + snd d) \<in> visited \<union> posKey ` fst ` set N"
    by auto
  have new: "snd x = path @ [fst x] \<and> fst x \<in> opened g \<and> posKey (fst x) \<notin> visited
      \<and> adjacent p (fst x)" if "x \<in> set N" for x
    using items that by (cases x) (auto simp: adjacent_directions)
  have old: "x \<in> set ((p, path) # A) \<union> set B" if "x \<in> set A \<union> set B" for x
    using that by auto
  have "bfsInv g s e k A (B @ N) visited'"
  proof (rule bfsInvI)
    fix x assume x: "x \<in> set A \<union> set (B @ N)"
    show "route g s (fst x) (snd x)"
    proof (cases "x \<in> set N")
      case True
      from new [OF True] route_snoc [OF rp, of "fst x"] show ?thesis by simp
    next
      case False
      with x have "x \<in> set A \<union> set B" by auto
      from d(1) [OF old [OF this]] show ?thesis .
    qed
    show "posKey (fst x) \<in> visited'"
    proof (cases "x \<in> set N")
      case True
      then show ?thesis unfolding v' by blast
    next
      case False
      with x have "x \<in> set A \<union> set B" by auto
      from d(2) [OF old [OF this]] show ?thesis unfolding v' by simp
    qed
    fix j assume j: "Suc j < length (snd x)"
    show "fst x \<notin> ball g s j"
    proof (cases "x \<in> set N")
      case True
      from new [OF True] j lp have jk: "j \<le> k" and nv: "posKey (fst x) \<notin> visited" by auto
      show ?thesis
      proof
        assume "fst x \<in> ball g s j"
        with ball_mono [OF jk, of g s] have "fst x \<in> ball g s k" by blast
        from d(6) [OF this] nv show False by simp
      qed
    next
      case False
      with x have "x \<in> set A \<union> set B" by auto
      from d(3) [OF old [OF this] j] show ?thesis .
    qed
  next
    fix x assume "x \<in> set A"
    then show "length (snd x) = Suc k" using d(4) [of x] by simp
  next
    fix x assume x: "x \<in> set (B @ N)"
    show "length (snd x) = Suc (Suc k)"
    proof (cases "x \<in> set N")
      case True
      from new [OF True] lp show ?thesis by simp
    next
      case False
      with x have "x \<in> set B" by simp
      from d(5) [OF this] show ?thesis .
    qed
  next
    fix p' assume "p' \<in> ball g s k"
    from d(6) [OF this] show "posKey p' \<in> visited'" unfolding v' by simp
  next
    fix p' q assume a: "p' \<in> ball g s k" "p' \<notin> fst ` set A" "q \<in> opened g" "adjacent p' q"
    show "posKey q \<in> visited'"
    proof (cases "p' = p")
      case True
      with a(4) obtain dd where "dd \<in> set directions" "q = (fst p + fst dd, snd p + snd dd)"
        by (auto simp: adjacent_directions)
      with nb a(3) show ?thesis unfolding v' by blast
    next
      case False
      with a(2) have "p' \<notin> fst ` set ((p, path) # A)" by simp
      from d(7) [OF a(1) this a(3,4)] show ?thesis unfolding v' by simp
    qed
  next
    fix x assume a: "posKey x \<in> visited'" "x \<notin> ball g s k"
    show "x \<in> fst ` set (B @ N)"
    proof (cases "posKey x \<in> visited")
      case True
      from d(8) [OF True a(2)] show ?thesis by auto
    next
      case False
      with a(1) have "posKey x \<in> posKey ` fst ` set N" unfolding v' by simp
      then have "x \<in> fst ` set N" by (simp only: inj_image_mem_iff [OF inj_posKey])
      then show ?thesis by auto
    qed
  next
    fix x assume a: "posKey x \<in> visited'" "x \<notin> fst ` set A" "x \<notin> fst ` set (B @ N)"
    from a(3) have nB: "x \<notin> fst ` set B" and nN: "x \<notin> fst ` set N" by auto
    from nN have "posKey x \<notin> posKey ` fst ` set N"
      by (simp only: inj_image_mem_iff [OF inj_posKey] not_False_eq_True)
    with a(1) have v: "posKey x \<in> visited" unfolding v' by blast
    show "x \<noteq> e"
    proof (cases "x = p")
      case True
      with pe show ?thesis by simp
    next
      case False
      with a(2) have "x \<notin> fst ` set ((p, path) # A)" by simp
      from d(9) [OF v this nB] show ?thesis .
    qed
  qed
  with q' show ?thesis by auto
qed

lemma bfsLoop_correct:
  assumes "readsInside n g"
  shows "\<exists>k A B. queue = A @ B \<and> bfsInv g s e k A B visited
    \<Longrightarrow> \<exists>r. bfsLoop n g e queue visited = Inr r
        \<and> (if \<exists>ps. route g s e ps
            then route g s e r \<and> (\<forall>ps. route g s e ps \<longrightarrow> length r \<le> length ps)
            else r = [])"
  using assms
proof (induction n g e queue visited rule: bfsLoop.induct)
  case (1 n g e visited)
  then obtain k where "bfsInv g s e k [] [] visited" by auto
  from bfsInv_empty [OF this] show ?case by simp
next
  case (2 n g e point path queue visited)
  from "2.prems"(1) obtain k A B where q: "(point, path) # queue = A @ B"
    and inv: "bfsInv g s e k A B visited" by blast
  have "\<exists>k A B. queue = A @ B \<and> bfsInv g s e k ((point, path) # A) B visited"
  proof (cases A)
    case Nil
    with q inv have "bfsInv g s e (Suc k) ((point, path) # queue) [] visited"
      using bfsInv_next_level [of g s e k B visited] by simp
    then show ?thesis by (intro exI [of _ "Suc k"] exI [of _ queue] exI [of _ "[]"]) simp
  next
    case (Cons a A')
    with q inv show ?thesis by auto
  qed
  then obtain k A B where q: "queue = A @ B"
    and inv: "bfsInv g s e k ((point, path) # A) B visited" by blast
  show ?case
  proof (cases "fst point = fst e \<and> snd point = snd e")
    case True
    then have pe: "point = e" by (simp add: prod_eq_iff)
    from bfsInv_found [OF inv, of path] pe
    have "route g s e path \<and> (\<forall>ps. route g s e ps \<longrightarrow> length path \<le> length ps)" by simp
    moreover from True have "bfsLoop n g e ((point, path) # queue) visited = Inr path" by simp
    ultimately show ?thesis by auto
  next
    case False
    then have pe: "point \<noteq> e" by auto
    from bfsInvD(1) [OF inv, of "(point, path)"] have "point \<in> opened g"
      by (simp add: route_end)
    from expand_spec [OF "2.prems"(2) this subset_refl, of path queue visited]
    obtain queue' visited' where
      ex: "expand n g point path directions (queue, visited) = Inr (queue', visited')"
      by blast
    from bfsInv_step [OF "2.prems"(2) inv pe] ex q obtain B' where
      "queue' = A @ B'" "bfsInv g s e k A B' visited'" by auto
    then have "\<exists>k A B. queue' = A @ B \<and> bfsInv g s e k A B visited'" by blast
    from "2.IH" [OF False ex refl this "2.prems"(2)] obtain r where
      r: "bfsLoop n g e queue' visited' = Inr r"
        "if \<exists>ps. route g s e ps
         then route g s e r \<and> (\<forall>ps. route g s e ps \<longrightarrow> length r \<le> length ps)
         else r = []"
      by blast
    from False ex have "bfsLoop n g e ((point, path) # queue) visited
        = bfsLoop n g e queue' visited'" by auto
    with r show ?thesis by (intro exI [of _ r]) simp
  qed
qed

lemma bfs_shortest:
  assumes "readsInside n g" and "isOpen g start"
  shows "\<exists>r. findOptimalPath n g start endP = Inr r
     \<and> (if \<exists>ps. route g start endP ps
         then route g start endP r \<and> (\<forall>ps. route g start endP ps \<longrightarrow> length r \<le> length ps)
         else r = [])"
proof -
  from assms(2) have "start \<in> opened g" by (simp add: opened_def)
  from bfsInv_init [OF this, of endP]
  have "\<exists>k A B. [(start, [start])] = A @ B \<and> bfsInv g start endP k A B {posKey start}"
    by (intro exI [of _ 0] exI [of _ "[(start, [start])]"] exI [of _ "[]"]) simp
  from bfsLoop_correct [OF assms(1) this] show ?thesis by (simp add: findOptimalPath_def)
qed

text \<open>
  Two grids of side 5 with the corridor from \<open>(1,1)\<close> by \<open>(1,3)\<close> to \<open>(3,3)\<close>, which has
  five cells. \<open>corridorGrid\<close> has a border of walls and, besides the corridor, the way
  round by \<open>(3,1)\<close>. \<open>openBorderGrid\<close> has the corridor alone and one open cell on its
  border, \<open>(1,4)\<close> below the corner of the corridor.
\<close>

definition corridorGrid :: Grid where
  "corridorGrid =
     [[''#'', ''#'', ''#'', ''#'', ''#''],
      [''#'', '' '', '' '', '' '', ''#''],
      [''#'', '' '', ''#'', '' '', ''#''],
      [''#'', '' '', '' '', '' '', ''#''],
      [''#'', ''#'', ''#'', ''#'', ''#'']]"

definition openBorderGrid :: Grid where
  "openBorderGrid =
     [[''#'', ''#'', ''#'', ''#'', ''#''],
      [''#'', '' '', ''#'', ''#'', ''#''],
      [''#'', '' '', ''#'', ''#'', ''#''],
      [''#'', '' '', '' '', '' '', ''#''],
      [''#'', '' '', ''#'', ''#'', ''#'']]"

lemma corridorGrid_wf: "wf_grid 5 corridorGrid"
  by (simp add: wf_grid_def corridorGrid_def)

lemma corridorGrid_walled: "opened corridorGrid \<subseteq> {p. interior 5 p}"
proof
  fix p assume "p \<in> opened corridorGrid"
  then have o: "isOpen corridorGrid p" by (simp add: opened_def)
  obtain x y where p: "p = (x, y)" by (cases p)
  from isOpen_inGrid [OF corridorGrid_wf o] p
  have "x = 0 \<or> x = 1 \<or> x = 2 \<or> x = 3 \<or> x = 4" "y = 0 \<or> y = 1 \<or> y = 2 \<or> y = 3 \<or> y = 4"
    by (auto simp: inGrid_def)
  with o p have "interior 5 p"
    by (auto simp: isOpen_def corridorGrid_def grid_eval interior_def)
  then show "p \<in> {p. interior 5 p}" by simp
qed

lemma corridorGrid_start: "isOpen corridorGrid (1, 1)"
  by (simp add: isOpen_def corridorGrid_def grid_eval)

lemma findOptimalPath_corridor:
  "findOptimalPath MAZE_SIZE corridorGrid (1, 1) (3, 3)
     = Inr [(1, 1), (1, 2), (1, 3), (2, 3), (3, 3)]"
  by code_simp

lemma findOptimalPath_no_route:
  "findOptimalPath MAZE_SIZE corridorGrid (1, 1) (2, 2) = Inr []"
  by code_simp

text \<open>
  Five cells are the fewest: \<open>(1,1)\<close> and \<open>(3,3)\<close> are four steps apart, and in no grid
  does a route of three cells join them.
\<close>

lemma no_route_of_three_cells:
  assumes "length ps = 3"
  shows "\<not> route g (1, 1) (3, 3) ps"
proof
  assume r: "route g (1, 1) (3, 3) ps"
  from assms obtain a b c where ps: "ps = [a, b, c]"
    by (auto simp: length_Suc_conv eval_nat_numeral)
  from r ps have "a = (1, 1) \<and> c = (3, 3) \<and> adjacent a b \<and> adjacent b c"
    by (auto simp: route_def)
  then show False by (cases b) (auto simp: adjacent_def)
qed

text \<open>
  C1, as the code has it. The finder bounds its search by \<open>MAZE_SIZE\<close>. On a grid of side
  \<open>MAZE_SIZE\<close>, and on a smaller square grid whose open cells are all off the border, from
  an open start cell it returns a route from the start to the end with the fewest cells
  of all such routes whenever a route exists, and the empty list, not an error, when none
  exists.
\<close>

theorem findOptimalPath_shortest:
  assumes "wf_grid m g"
    and "m = MAZE_SIZE \<or> m \<le> MAZE_SIZE \<and> opened g \<subseteq> {p. interior m p}"
    and "isOpen g start"
  shows "\<exists>r. findOptimalPath MAZE_SIZE g start endP = Inr r
     \<and> (if \<exists>ps. route g start endP ps
         then route g start endP r \<and> (\<forall>ps. route g start endP ps \<longrightarrow> length r \<le> length ps)
         else r = [])"
proof -
  from assms(2) have "readsInside MAZE_SIZE g"
  proof
    assume "m = MAZE_SIZE"
    with assms(1) show ?thesis by (simp add: readsInside_wf)
  next
    assume "m \<le> MAZE_SIZE \<and> opened g \<subseteq> {p. interior m p}"
    with assms(1) show ?thesis by (simp add: readsInside_walled)
  qed
  from bfs_shortest [OF this assms(3)] show ?thesis .
qed

theorem findOptimalPath_shortest_witness:
  "wf_grid 5 corridorGrid \<and> 5 \<le> MAZE_SIZE \<and> opened corridorGrid \<subseteq> {p. interior 5 p}
   \<and> isOpen corridorGrid (1, 1)
   \<and> findOptimalPath MAZE_SIZE corridorGrid (1, 1) (3, 3)
       = Inr [(1, 1), (1, 2), (1, 3), (2, 3), (3, 3)]
   \<and> route corridorGrid (1, 1) (3, 3) [(1, 1), (1, 2), (1, 3), (2, 3), (3, 3)]
   \<and> \<not> (\<exists>ps. route corridorGrid (1, 1) (3, 3) ps \<and> length ps < 5)
   \<and> findOptimalPath MAZE_SIZE corridorGrid (1, 1) (2, 2) = Inr []"
proof -
  let ?r = "[(1, 1), (1, 2), (1, 3), (2, 3), (3 :: int, 3 :: int)]"
  have le: "5 \<le> MAZE_SIZE" by (simp add: MAZE_SIZE_def)
  with corridorGrid_walled
  have h: "5 = MAZE_SIZE \<or> 5 \<le> MAZE_SIZE \<and> opened corridorGrid \<subseteq> {p. interior 5 p}" by simp
  from findOptimalPath_shortest [OF corridorGrid_wf h corridorGrid_start, of "(3, 3)"]
  have i: "if \<exists>ps. route corridorGrid (1, 1) (3, 3) ps
      then route corridorGrid (1, 1) (3, 3) ?r
        \<and> (\<forall>ps. route corridorGrid (1, 1) (3, 3) ps \<longrightarrow> length ?r \<le> length ps)
      else ?r = []"
    by (simp only: findOptimalPath_corridor sum.inject ex_simps simp_thms)
  then have e: "\<exists>ps. route corridorGrid (1, 1) (3, 3) ps" by (auto split: if_splits)
  with i have c: "route corridorGrid (1, 1) (3, 3) ?r
      \<and> (\<forall>ps. route corridorGrid (1, 1) (3, 3) ps \<longrightarrow> length ?r \<le> length ps)"
    by (auto split: if_splits)
  then have "\<not> (\<exists>ps. route corridorGrid (1, 1) (3, 3) ps \<and> length ps < 5)" by auto
  with c le show ?thesis
    using corridorGrid_wf corridorGrid_walled corridorGrid_start findOptimalPath_corridor
      findOptimalPath_no_route by blast
qed

text \<open>
  On \<open>openBorderGrid\<close> the corridor joins the open cells \<open>(1,1)\<close> and \<open>(3,3)\<close>, and the
  finder returns no path: from \<open>(1,3)\<close> it enters the border cell \<open>(1,4)\<close>, from there it
  looks at \<open>(1,5)\<close>, which is within \<open>MAZE_SIZE\<close>, and \<^verbatim>\<open>maze[5][1]\<close> throws a
  \<^verbatim>\<open>TypeError\<close>, since the grid has no row 5.
\<close>

theorem findOptimalPath_open_border_counterexample:
  "wf_grid 5 openBorderGrid \<and> isOpen openBorderGrid (1, 1) \<and> isOpen openBorderGrid (3, 3)
   \<and> route openBorderGrid (1, 1) (3, 3) [(1, 1), (1, 2), (1, 3), (2, 3), (3, 3)]
   \<and> findOptimalPath MAZE_SIZE openBorderGrid (1, 1) (3, 3) = Inl TypeError"
proof -
  have "wf_grid 5 openBorderGrid" by (simp add: wf_grid_def openBorderGrid_def)
  moreover have o: "isOpen openBorderGrid (1, 1)" "isOpen openBorderGrid (1, 2)"
    "isOpen openBorderGrid (1, 3)" "isOpen openBorderGrid (2, 3)" "isOpen openBorderGrid (3, 3)"
    by (simp_all add: isOpen_def openBorderGrid_def grid_eval)
  moreover from o have "route openBorderGrid (1, 1) (3, 3) [(1, 1), (1, 2), (1, 3), (2, 3), (3, 3)]"
    by (simp add: route_def opened_def adjacent_def)
  moreover have "findOptimalPath MAZE_SIZE openBorderGrid (1, 1) (3, 3) = Inl TypeError"
    by code_simp
  ultimately show ?thesis by simp
qed

end
